theory Spec2Isabelle
  imports Complex_Main "HOL-Library.FSet"
begin

section \<open>Errors\<close>

text \<open>
  Go error values. The three sentinels of \<^verbatim>\<open>forwarder/upstream/upstream.go\<close>, the two
  sentinels of package context, one constructor for every \<^verbatim>\<open>errors.New\<close> and
  \<^verbatim>\<open>fmt.Errorf\<close> site of the sources, \<open>Wrap\<close> for an error that unwraps to another one
  (\<^verbatim>\<open>fmt.Errorf("...: %w", err)\<close>, \<^verbatim>\<open>*net.OpError\<close>), \<open>Join\<close> for the value built by
  \<^verbatim>\<open>errors.Join\<close>, and \<open>Panic\<close> for a run-time panic, which the model returns as a value.
  A nil error is \<open>None\<close> of type \<open>error option\<close>.
\<close>

datatype error =
    ErrUpstreamNotReady
  | ErrBackendUnhealthy
  | ErrBackendRemoved
  | Canceled
  | DeadlineExceeded
  | ErrUpstreamNotInConfig
  | ErrNoOU
  | ErrNotAuthorized
  | ErrNotTLS
  | ErrUpstreamNotFound
  | ErrRateLimited string int
  | Other string
  | Wrap string error
  | Join "error list"
  | Panic string

text \<open>
  \<^verbatim>\<open>errors.Is(err, target)\<close>: the chain of \<open>err\<close> is walked through \<open>Wrap\<close> (one
  successor) and \<open>Join\<close> (every member); a nil \<open>err\<close> matches no non-nil target.
\<close>

fun errors_Is' :: "error \<Rightarrow> error \<Rightarrow> bool" where
  "errors_Is' (Wrap msg e) target = (Wrap msg e = target \<or> errors_Is' e target)"
| "errors_Is' (Join es) target = (Join es = target \<or> list_ex (\<lambda>e. errors_Is' e target) es)"
| "errors_Is' e target = (e = target)"

definition errors_Is :: "error option \<Rightarrow> error \<Rightarrow> bool" where
  "errors_Is err target = (case err of None \<Rightarrow> False | Some e \<Rightarrow> errors_Is' e target)"

text \<open>
  \<^verbatim>\<open>errors.Join(errs...)\<close>: nil arguments are dropped; the result is nil when nothing is
  left, otherwise an error that wraps all the remaining ones.
\<close>

definition errors_Join :: "error option list \<Rightarrow> error option" where
  "errors_Join errs =
     (case List.map_filter id errs of [] \<Rightarrow> None | e # es \<Rightarrow> Some (Join (e # es)))"

section \<open>Contexts\<close>

text \<open>
  A \<^verbatim>\<open>context.Context\<close> value. Every derived context holds its parent, as in Go, and a
  number that stands for its identity (two derivations from one parent are different map
  keys). \<open>CancelCtx\<close> is what \<^verbatim>\<open>context.WithCancelCause\<close> returns, \<open>ValueCtx\<close> what
  \<^verbatim>\<open>context.WithValue\<close> returns (the tests derive request contexts that way).
\<close>

datatype gocontext =
    Background
  | CancelCtx gocontext nat
  | ValueCtx gocontext nat

text \<open>
  A function registered with \<^verbatim>\<open>context.AfterFunc\<close> by \<^verbatim>\<open>trackCtx\<close>: either the closure
  that cancels the derived context with the cause of the backend context, or the closure
  that calls \<^verbatim>\<open>removeTrackedConn(outer, addr)\<close> on the tracker of the named upstream.
\<close>

datatype afterFn =
    PropagateCancel gocontext gocontext
  | RemoveTrackedConn string gocontext string

text \<open>
  The part of the heap the context package owns: the cause of every cancelled
  \<open>CancelCtx\<close> (by identity), the next unused identity, and the registered after-functions
  (registration number, watched context, function).
\<close>

record ctxs =
  causes :: "nat \<rightharpoonup> error"
  fresh :: nat
  afterFuncs :: "(nat \<times> gocontext \<times> afterFn) list"

text \<open>\<open>ctx.Done()\<close> is closed: the context or one of its ancestors has been cancelled.\<close>

fun ctxDone :: "ctxs \<Rightarrow> gocontext \<Rightarrow> bool" where
  "ctxDone w Background = False"
| "ctxDone w (CancelCtx p n) = (causes w n \<noteq> None \<or> ctxDone w p)"
| "ctxDone w (ValueCtx p n) = ctxDone w p"

text \<open>
  \<^verbatim>\<open>context.Cause(ctx)\<close>. A cancel function does nothing on a context that is already
  done (see \<open>cancelCause\<close>), so the cause of a done context is the one recorded at its
  nearest cancelled ancestor.
\<close>

fun Cause :: "ctxs \<Rightarrow> gocontext \<Rightarrow> error option" where
  "Cause w Background = None"
| "Cause w (CancelCtx p n) = (case causes w n of Some e \<Rightarrow> Some e | None \<Rightarrow> Cause w p)"
| "Cause w (ValueCtx p n) = Cause w p"

text \<open>
  \<^verbatim>\<open>context.WithCancelCause(parent)\<close> returns the new context; its cancel function is
  represented by the context it cancels.
\<close>

definition WithCancelCause :: "gocontext \<Rightarrow> ctxs \<Rightarrow> gocontext \<times> ctxs" where
  "WithCancelCause parent w = (CancelCtx parent (fresh w), w\<lparr>fresh := Suc (fresh w)\<rparr>)"

text \<open>Calling the cancel function of context \<open>c\<close> with a cause.\<close>

fun cancelCause :: "gocontext \<Rightarrow> error \<Rightarrow> ctxs \<Rightarrow> ctxs" where
  "cancelCause (CancelCtx p n) err w =
     (if ctxDone w (CancelCtx p n) then w else w\<lparr>causes := (causes w)(n \<mapsto> err)\<rparr>)"
| "cancelCause c err w = w"

text \<open>\<^verbatim>\<open>context.AfterFunc(ctx, f)\<close> returns the registration number its stop function removes.\<close>

definition AfterFunc :: "gocontext \<Rightarrow> afterFn \<Rightarrow> ctxs \<Rightarrow> nat \<times> ctxs" where
  "AfterFunc c f w =
     (fresh w, w\<lparr>fresh := Suc (fresh w), afterFuncs := afterFuncs w @ [(fresh w, c, f)]\<rparr>)"

definition stopAfterFunc :: "nat \<Rightarrow> ctxs \<Rightarrow> ctxs" where
  "stopAfterFunc i w = w\<lparr>afterFuncs := filter (\<lambda>r. fst r \<noteq> i) (afterFuncs w)\<rparr>"

section \<open>Connection tracker (forwarder/upstream/tracker.go)\<close>

text \<open>
  \<^verbatim>\<open>type activeConns map[context.Context]struct{}\<close> is a finite set of contexts, and
  \<^verbatim>\<open>len\<close> of it is \<open>fcard\<close>. The mutex and the logger are left out: every operation below
  runs under the lock, so it is one atomic step.
\<close>

record backendCtx =
  ctx :: gocontext
  cancel :: gocontext

record Tracker =
  UpstreamName :: string
  Cancel :: "gocontext option"
  Ctx :: gocontext
  healthyBackends :: "string \<rightharpoonup> gocontext fset"
  backendCanceler :: "string \<rightharpoonup> backendCtx"

type_synonym tstate = "Tracker \<times> ctxs"

definition NewTracker :: "gocontext \<Rightarrow> string \<Rightarrow> ctxs \<Rightarrow> tstate" where
  "NewTracker parent upstream w =
     (let (c, w') = WithCancelCause parent w
      in (\<lparr>UpstreamName = upstream, Cancel = Some c, Ctx = c,
           healthyBackends = Map.empty, backendCanceler = Map.empty\<rparr>, w'))"

text \<open>\<^verbatim>\<open>delete(t.healthyBackends[addr], ctx)\<close>: deleting from the nil map of a missing key does nothing.\<close>

fun removeTrackedConn :: "gocontext \<Rightarrow> string \<Rightarrow> tstate \<Rightarrow> tstate" where
  "removeTrackedConn c addr (t, w) =
     (case healthyBackends t addr of
        None \<Rightarrow> (t, w)
      | Some ac \<Rightarrow> (t\<lparr>healthyBackends := (healthyBackends t)(addr \<mapsto> ac |-| {|c|})\<rparr>, w))"

text \<open>The cancel function \<^verbatim>\<open>trackCtx\<close> returns: stop the after-function, then cancel the context.\<close>

datatype cancelFunc = Release nat gocontext

fun trackCtx :: "string \<Rightarrow> gocontext \<Rightarrow> gocontext \<Rightarrow> string \<Rightarrow> ctxs \<Rightarrow> (gocontext \<times> cancelFunc) \<times> ctxs" where
  "trackCtx name outer backend addr w =
     (let (c, w1) = WithCancelCause outer w;
          (afterBackendCancelled, w2) = AfterFunc backend (PropagateCancel c backend) w1;
          (u, w3) = AfterFunc c (RemoveTrackedConn name outer addr) w2
      in ((c, Release afterBackendCancelled c), w3))"

fun runCancelFunc :: "cancelFunc \<Rightarrow> ctxs \<Rightarrow> ctxs" where
  "runCancelFunc (Release i c) w = cancelCause c Canceled (stopAfterFunc i w)"

fun BackendActiveConns :: "string \<Rightarrow> tstate \<Rightarrow> nat \<times> tstate" where
  "BackendActiveConns addr (t, w) =
     ((case healthyBackends t addr of None \<Rightarrow> 0 | Some ac \<Rightarrow> fcard ac), (t, w))"

fun TrackBackend :: "string \<Rightarrow> tstate \<Rightarrow> tstate" where
  "TrackBackend addr (t, w) =
     (case healthyBackends t addr of
        Some ac \<Rightarrow> (t, w)
      | None \<Rightarrow>
          (let (c, w') = WithCancelCause (Ctx t) w
           in (t\<lparr>healthyBackends := (healthyBackends t)(addr \<mapsto> {||}),
                 backendCanceler := (backendCanceler t)(addr \<mapsto> \<lparr>ctx = c, cancel = c\<rparr>)\<rparr>, w')))"

text \<open>
  \<^verbatim>\<open>leastConnections\<close>. Go ranges over a map in an order that is not specified and differs
  from one loop to the next, so the order of the keys is an argument \<open>ks\<close> of the model;
  \<open>iterOrder\<close> says that \<open>ks\<close> lists every key of the map once. The loop state is the pair
  \<^verbatim>\<open>(choice, min)\<close>, which starts at the empty string and \<^verbatim>\<open>math.MaxInt32\<close>.
\<close>

definition MaxInt32 :: nat where
  "MaxInt32 = 2147483647"

definition iterOrder :: "'k list \<Rightarrow> ('k \<rightharpoonup> 'v) \<Rightarrow> bool" where
  "iterOrder ks m = (distinct ks \<and> set ks = dom m)"

fun leastLoop :: "(string \<rightharpoonup> gocontext fset) \<Rightarrow> string list \<Rightarrow> string \<times> nat \<Rightarrow> string \<times> nat" where
  "leastLoop hb [] (choice, mn) = (choice, mn)"
| "leastLoop hb (b # bs) (choice, mn) =
     (case hb b of
        None \<Rightarrow> leastLoop hb bs (choice, mn)
      | Some activeConns \<Rightarrow>
          if fcard activeConns < mn then leastLoop hb bs (b, fcard activeConns)
          else leastLoop hb bs (choice, mn))"

definition leastConnections :: "string list \<Rightarrow> Tracker \<Rightarrow> string" where
  "leastConnections ks t = fst (leastLoop (healthyBackends t) ks ('''', MaxInt32))"

fun UntrackBackend :: "string \<Rightarrow> error \<Rightarrow> tstate \<Rightarrow> tstate" where
  "UntrackBackend addr err (t, w) =
     (case backendCanceler t addr of
        None \<Rightarrow> (t, w)
      | Some c \<Rightarrow>
          (t\<lparr>backendCanceler := (backendCanceler t)(addr := None),
             healthyBackends := (healthyBackends t)(addr := None)\<rparr>,
           cancelCause (cancel c) err w))"

text \<open>
  \<^verbatim>\<open>NextWithContext\<close>. The two places where the Go code can panic are results of the
  model: the store into \<^verbatim>\<open>t.healthyBackends[addr]\<close> when \<open>addr\<close> is not a key (a nil map),
  and the read of \<^verbatim>\<open>t.backendCanceler[addr].ctx\<close> when \<open>addr\<close> is not a key (a nil
  pointer), which happens after the store.
\<close>

fun NextWithContext :: "string list \<Rightarrow> gocontext \<Rightarrow> tstate \<Rightarrow>
    (error + string \<times> gocontext \<times> cancelFunc) \<times> tstate" where
  "NextWithContext ks parent (t, w) =
     (if dom (healthyBackends t) = {} then (Inl ErrUpstreamNotReady, (t, w))
      else
        let addr = leastConnections ks t in
        case healthyBackends t addr of
          None \<Rightarrow> (Inl (Panic ''assignment to entry in nil map''), (t, w))
        | Some ac \<Rightarrow>
            let t' = t\<lparr>healthyBackends := (healthyBackends t)(addr \<mapsto> finsert parent ac)\<rparr> in
            (case backendCanceler t' addr of
               None \<Rightarrow> (Inl (Panic ''nil pointer dereference''), (t', w))
             | Some bc \<Rightarrow>
                 let (r, w') = trackCtx (UpstreamName t') parent (ctx bc) addr w
                 in (Inr (addr, fst r, snd r), (t', w'))))"

text \<open>
  The states a tracker can be in: \<^verbatim>\<open>NewTracker\<close> followed by any sequence of the operations
  that take the lock. \<^verbatim>\<open>removeTrackedConn\<close> is called by the after-functions of
  \<^verbatim>\<open>trackCtx\<close> at a time the scheduler chooses, so it is a step with any arguments.
  A \<^verbatim>\<open>NextWithContext\<close> that panics leaves the state it had reached.
\<close>

inductive reachable :: "tstate \<Rightarrow> bool" where
  r_new: "reachable (NewTracker parent upstream w)"
| r_track: "reachable s \<Longrightarrow> reachable (TrackBackend addr s)"
| r_untrack: "reachable s \<Longrightarrow> reachable (UntrackBackend addr err s)"
| r_next: "reachable s \<Longrightarrow> iterOrder ks (healthyBackends (fst s)) \<Longrightarrow>
    reachable (snd (NextWithContext ks parent s))"
| r_remove: "reachable s \<Longrightarrow> reachable (removeTrackedConn c addr s)"
| r_active: "reachable s \<Longrightarrow> reachable (snd (BackendActiveConns addr s))"

text \<open>The two maps of the tracker have the same keys.\<close>

definition sameKeys :: "Tracker \<Rightarrow> bool" where
  "sameKeys t = (dom (healthyBackends t) = dom (backendCanceler t))"

text \<open>No backend other than \<open>addr\<close> has context \<open>c\<close> in its active set.\<close>

definition untrackedElsewhere :: "Tracker \<Rightarrow> string \<Rightarrow> gocontext \<Rightarrow> bool" where
  "untrackedElsewhere t addr c =
     (\<forall>a ac. healthyBackends t a = Some ac \<and> a \<noteq> addr \<longrightarrow> c |\<notin>| ac)"

text \<open>
  A call of \<^verbatim>\<open>NextWithContext\<close> that, if it returns an address, is made on a context
  which at the time of the call is in the active set of no other backend.
\<close>

definition scopedCall :: "string list \<Rightarrow> gocontext \<Rightarrow> tstate \<Rightarrow> bool" where
  "scopedCall ks parent s =
     (\<forall>addr c cf. fst (NextWithContext ks parent s) = Inr (addr, c, cf) \<longrightarrow>
        untrackedElsewhere (fst s) addr parent)"

text \<open>
  The states reached by \<^verbatim>\<open>TrackBackend\<close>, \<^verbatim>\<open>UntrackBackend\<close>, \<^verbatim>\<open>NextWithContext\<close> and
  \<^verbatim>\<open>removeTrackedConn\<close> when every call of \<^verbatim>\<open>NextWithContext\<close> is such a call. A
  request-scoped context, one made for the connection and in no active set yet, is the
  usual case.
\<close>

inductive reachableScoped :: "tstate \<Rightarrow> bool" where
  s_new: "reachableScoped (NewTracker parent upstream w)"
| s_track: "reachableScoped s \<Longrightarrow> reachableScoped (TrackBackend addr s)"
| s_untrack: "reachableScoped s \<Longrightarrow> reachableScoped (UntrackBackend addr err s)"
| s_next: "reachableScoped s \<Longrightarrow> iterOrder ks (healthyBackends (fst s)) \<Longrightarrow>
    scopedCall ks parent s \<Longrightarrow>
    reachableScoped (snd (NextWithContext ks parent s))"
| s_remove: "reachableScoped s \<Longrightarrow> reachableScoped (removeTrackedConn c addr s)"

text \<open>A connection handle is in the active set of at most one backend.\<close>

definition atMostOneBackend :: "Tracker \<Rightarrow> bool" where
  "atMostOneBackend t =
     (\<forall>a b aca acb c. healthyBackends t a = Some aca \<and> healthyBackends t b = Some acb \<and>
        c |\<in>| aca \<and> c |\<in>| acb \<longrightarrow> a = b)"

text \<open>
  Address \<open>a\<close>, with \<open>n\<close> active connections, is the first key in the order \<open>ks\<close> among
  those with the fewest active connections seen so far.
\<close>

definition firstMin :: "(string \<rightharpoonup> gocontext fset) \<Rightarrow> string list \<Rightarrow> string \<Rightarrow> nat \<Rightarrow> bool" where
  "firstMin hb ks a n =
     (\<exists>pre post ac. ks = pre @ a # post \<and> hb a = Some ac \<and> fcard ac = n \<and>
        (\<forall>b\<in>set pre. \<forall>ac'. hb b = Some ac' \<longrightarrow> n < fcard ac'))"

text \<open>Some healthy backend has fewer than \<^verbatim>\<open>math.MaxInt32\<close> active connections.\<close>

definition someBelowSentinel :: "Tracker \<Rightarrow> bool" where
  "someBelowSentinel t = (\<exists>a ac. healthyBackends t a = Some ac \<and> fcard ac < MaxInt32)"

text \<open>\<open>n\<close> different request contexts.\<close>

definition requestCtxs :: "nat \<Rightarrow> gocontext fset" where
  "requestCtxs n = fset_of_list (map (ValueCtx Background) [0..<n])"

definition ctxs0 :: ctxs where
  "ctxs0 = \<lparr>causes = Map.empty, fresh = 0, afterFuncs = []\<rparr>"

section \<open>Health checker (package health)\<close>

datatype Status = INIT | SUCCESS | FAILED

record TCP =
  Addr :: string
  status :: Status

text \<open>
  \<^verbatim>\<open>TCP.Check\<close>. The dial is the one effect; what \<^verbatim>\<open>h.d.DialContext\<close> returned is the
  argument \<open>dialErr\<close> (nil when the connection was made, and then closed again).
\<close>

definition Check :: "error option \<Rightarrow> TCP \<Rightarrow> (Status \<times> bool \<times> error option) \<times> TCP" where
  "Check dialErr h =
     (let stat = (if dialErr \<noteq> None then FAILED else SUCCESS);
          err = (if errors_Is dialErr Canceled then None else dialErr);
          changed = (if status h = stat then False else True)
      in ((stat, changed, err), h\<lparr>status := stat\<rparr>))"

text \<open>
  The error of a dial that was cut short by its context, as package net of the Go standard
  library builds it: an \<^verbatim>\<open>*net.OpError\<close> around an error that \<^verbatim>\<open>errors.Is\<close> matches with
  the context's own error, \<^verbatim>\<open>context.Canceled\<close> after a cancel and
  \<^verbatim>\<open>context.DeadlineExceeded\<close> after the deadline.
\<close>

definition dialAborted :: "error \<Rightarrow> error" where
  "dialAborted ctxErr = Wrap ''dial tcp'' ctxErr"

section \<open>Forwarder (forwarder/forwarder.go)\<close>

text \<open>
  \<^verbatim>\<open>fwd\<close> after the two copy tasks have been started. Its inputs are the error of the dial
  and the two values received from \<^verbatim>\<open>errc\<close>, in the order they arrive. The value of
  \<^verbatim>\<open>errors.Join(err, <-errc)\<close> is computed and not assigned, as in the source.
\<close>

definition fwd :: "error option \<Rightarrow> error option \<Rightarrow> error option \<Rightarrow> error option" where
  "fwd dialErr first second =
     (case dialErr of
        Some e \<Rightarrow> Some e
      | None \<Rightarrow>
          (let err = first;
               unused = errors_Join [err, second]
           in case err of
                None \<Rightarrow> None
              | Some e \<Rightarrow> Some (Wrap ''failed to forward connection'' e)))"

section \<open>Per-client rate limiter\<close>

text \<open>
  Modelled from the spec: \<^verbatim>\<open>rate.Limiter\<close> of golang.org/x/time/rate, a library outside
  the repository. Section 4.G: a token bucket with capacity \<open>max_tokens\<close> that refills
  at \<open>refill_per_second\<close> tokens a second, fractions of a token included, and a take of
  one token that does not block; a refill of \<^verbatim>\<open>math.MaxFloat64\<close> (\<open>Inf\<close>) allows every
  event. \<^verbatim>\<open>Allow\<close> reads the clock: the seconds since the bucket was last used are the
  argument \<open>dt\<close>.
\<close>

datatype Limit = Inf | PerSecond real

record Limiter =
  limit :: Limit
  burst :: int
  tokens :: real

definition NewLimiter :: "Limit \<Rightarrow> int \<Rightarrow> Limiter" where
  "NewLimiter r b = \<lparr>limit = r, burst = b, tokens = of_int b\<rparr>"

definition Allow :: "real \<Rightarrow> Limiter \<Rightarrow> bool \<times> Limiter" where
  "Allow dt l =
     (case limit l of
        Inf \<Rightarrow> (True, l)
      | PerSecond r \<Rightarrow>
          (let tk = min (of_int (burst l)) (tokens l + dt * r)
           in if 1 \<le> tk then (True, l\<lparr>tokens := tk - 1\<rparr>) else (False, l\<lparr>tokens := tk\<rparr>)))"

record perClientRateLimiter =
  maxTokens :: int
  tokenRefillPerSecond :: Limit
  clientRL :: "string \<rightharpoonup> Limiter"

text \<open>
  \<^verbatim>\<open>getRL\<close> and \<^verbatim>\<open>rateLimit\<close>. The map holds pointers, so the bucket that \<^verbatim>\<open>Allow\<close>
  changes is the one in the map: the model stores it back under its key.
\<close>

definition getRL :: "string \<Rightarrow> perClientRateLimiter \<Rightarrow> Limiter \<times> perClientRateLimiter" where
  "getRL key rl =
     (case clientRL rl key of
        None \<Rightarrow>
          (let cl = NewLimiter (tokenRefillPerSecond rl) (maxTokens rl)
           in (cl, rl\<lparr>clientRL := (clientRL rl)(key \<mapsto> cl)\<rparr>))
      | Some val \<Rightarrow> (val, rl))"

definition rateLimit :: "string \<Rightarrow> real \<Rightarrow> perClientRateLimiter \<Rightarrow> error option \<times> perClientRateLimiter" where
  "rateLimit key dt rl =
     (let (limiter, rl1) = getRL key rl;
          (allowed, limiter') = Allow dt limiter;
          rl2 = rl1\<lparr>clientRL := (clientRL rl1)(key \<mapsto> limiter')\<rparr>
      in (if \<not> allowed then Some (ErrRateLimited key (maxTokens rl)) else None, rl2))"

text \<open>A sequence of calls, each with its key and the time since that key's bucket was used.\<close>

fun rateLimits :: "(string \<times> real) list \<Rightarrow> perClientRateLimiter \<Rightarrow> error option list" where
  "rateLimits [] rl = []"
| "rateLimits ((key, dt) # cs) rl = fst (rateLimit key dt rl) # rateLimits cs (snd (rateLimit key dt rl))"

section \<open>Policy enforcement (srv/policy.go)\<close>

record policyEnforcer =
  upstreamTags :: "string \<rightharpoonup> string list"

record policyQuery =
  user :: string
  ou :: string
  upstream :: string

record config_Upstream =
  cfgName :: string
  cfgTags :: "string list"
  cfgBackends :: "string list"

fun newPolicyEnforcerFromConfig :: "config_Upstream list \<Rightarrow> policyEnforcer" where
  "newPolicyEnforcerFromConfig ups =
     \<lparr>upstreamTags = fold (\<lambda>v m. m(cfgName v \<mapsto> cfgTags v)) ups Map.empty\<rparr>"

text \<open>The loop of \<^verbatim>\<open>query\<close> over the tags: true at the first tag equal to the OU.\<close>

fun findTag :: "string list \<Rightarrow> string \<Rightarrow> bool" where
  "findTag [] o' = False"
| "findTag (t # ts) o' = (if t = o' then True else findTag ts o')"

definition query :: "policyQuery \<Rightarrow> policyEnforcer \<Rightarrow> bool \<times> error option" where
  "query q p =
     (case upstreamTags p (upstream q) of
        None \<Rightarrow> (False, Some ErrUpstreamNotInConfig)
      | Some tags \<Rightarrow> if findTag tags (ou q) then (True, None) else (False, None))"

section \<open>Listener (srv/srv.go)\<close>

text \<open>
  What the listener reads from an accepted connection: the subject of a peer certificate,
  the result of the handshake, and the peer certificates of the connection state.
\<close>

record Subject =
  CommonName :: string
  OrganizationalUnit :: "string list"

record tlsConn =
  handshakeErr :: "error option"
  PeerCertificates :: "Subject list"

datatype netConn = PlainConn | TLSConn tlsConn

record FwdInfo =
  fwdUpstream :: string
  fwdConn :: netConn
  RateLimiterKey :: string

record DownstreamListener =
  dlUpstream :: string
  policy :: policyEnforcer

definition extractCertSubjFromConn :: "tlsConn \<Rightarrow> error + string \<times> string" where
  "extractCertSubjFromConn conn =
     (case PeerCertificates conn of
        [] \<Rightarrow> Inl (Panic ''index out of range'')
      | cert # certs \<Rightarrow>
          if length (OrganizationalUnit cert) = 0 then Inl ErrNoOU
          else Inr (CommonName cert, OrganizationalUnit cert ! 0))"

definition verifyTLS :: "DownstreamListener \<Rightarrow> tlsConn \<Rightarrow> error + string" where
  "verifyTLS d conn =
     (case handshakeErr conn of
        Some e \<Rightarrow> Inl e
      | None \<Rightarrow>
          (case extractCertSubjFromConn conn of
             Inl e \<Rightarrow> Inl e
           | Inr (usr, unit) \<Rightarrow>
               (case query \<lparr>user = usr, ou = unit, upstream = dlUpstream d\<rparr> (policy d) of
                  (allow, Some e) \<Rightarrow> Inl e
                | (allow, None) \<Rightarrow> if \<not> allow then Inl ErrNotAuthorized else Inr usr)))"

text \<open>
  \<^verbatim>\<open>handleConn\<close> ends in the call \<^verbatim>\<open>d.fwdr.Forward(ctx, info)\<close> through an interface.
  The model returns either the error that drops the connection before that call, or the
  \<open>FwdInfo\<close> that \<^verbatim>\<open>Forward\<close> is called with.
\<close>

datatype handled = Dropped error | Forwarded FwdInfo

definition handleConn :: "DownstreamListener \<Rightarrow> netConn \<Rightarrow> handled" where
  "handleConn d conn =
     (case conn of
        PlainConn \<Rightarrow> Dropped ErrNotTLS
      | TLSConn tc \<Rightarrow>
          (case verifyTLS d tc of
             Inl e \<Rightarrow> Dropped e
           | Inr usr \<Rightarrow> Forwarded \<lparr>fwdUpstream = dlUpstream d, fwdConn = conn, RateLimiterKey = usr\<rparr>))"

section \<open>Upstreams and their manager (package upstream)\<close>

datatype BackendStatus = INIT_Backend | HEALTHY | UNHEALTHY

record BackendHeartbeat =
  hbUpstreamName :: string
  hbAddr :: string

text \<open>
  The heartbeat set of one upstream. \<open>stoppers\<close> lists the heartbeats that have a stop
  channel; \<^verbatim>\<open>StopAll\<close> closes every channel and clears the map.
\<close>

record UpstreamHeartbeats =
  stoppers :: "BackendHeartbeat list"

definition StartHeartbeat :: "BackendHeartbeat \<Rightarrow> UpstreamHeartbeats \<Rightarrow> UpstreamHeartbeats" where
  "StartHeartbeat h u = u\<lparr>stoppers := stoppers u @ [h]\<rparr>"

definition StopAll :: "UpstreamHeartbeats \<Rightarrow> UpstreamHeartbeats" where
  "StopAll u = u\<lparr>stoppers := []\<rparr>"

record Upstream =
  Name :: string
  Status_ready :: int
  tracker :: Tracker
  heartbeats :: UpstreamHeartbeats

text \<open>
  \<^verbatim>\<open>NewUpstream\<close> builds its tracker with a struct literal: \<^verbatim>\<open>Ctx\<close> is
  \<^verbatim>\<open>context.Background()\<close> and the field \<^verbatim>\<open>Cancel\<close> is not set, so it is nil.
\<close>

definition NewUpstream :: "string \<Rightarrow> Upstream" where
  "NewUpstream name =
     \<lparr>Name = name, Status_ready = 0,
      tracker = \<lparr>UpstreamName = name, Cancel = None, Ctx = Background,
                 healthyBackends = Map.empty, backendCanceler = Map.empty\<rparr>,
      heartbeats = \<lparr>stoppers = []\<rparr>\<rparr>"

record Manager =
  Upstreams :: "string \<rightharpoonup> Upstream"
  BackendStatuses :: "string \<rightharpoonup> BackendStatus"
  healthEventsClosed :: bool

type_synonym mstate = "Manager \<times> ctxs"

definition NewManager :: Manager where
  "NewManager = \<lparr>Upstreams = Map.empty, BackendStatuses = Map.empty, healthEventsClosed = False\<rparr>"

definition GetUpstream :: "string \<Rightarrow> Manager \<Rightarrow> error + Upstream" where
  "GetUpstream name m =
     (case Upstreams m name of Some up \<Rightarrow> Inr up | None \<Rightarrow> Inl ErrUpstreamNotFound)"

fun handleHealthy :: "string \<Rightarrow> string \<Rightarrow> mstate \<Rightarrow> mstate" where
  "handleHealthy up_name backend (m, w) =
     (case GetUpstream up_name m of
        Inl e \<Rightarrow> (m, w)
      | Inr up \<Rightarrow>
          (let (t', w') = TrackBackend backend (tracker up, w);
               up' = up\<lparr>tracker := t', Status_ready := 1\<rparr>
           in (m\<lparr>Upstreams := (Upstreams m)(up_name \<mapsto> up'),
                 BackendStatuses := (BackendStatuses m)(backend \<mapsto> HEALTHY)\<rparr>, w')))"

fun handleUnhealthy :: "string \<Rightarrow> string \<Rightarrow> mstate \<Rightarrow> mstate" where
  "handleUnhealthy up_name backend (m, w) =
     (case GetUpstream up_name m of
        Inl e \<Rightarrow> (m, w)
      | Inr up \<Rightarrow>
          (let (t', w') = UntrackBackend backend ErrBackendUnhealthy (tracker up, w);
               up' = up\<lparr>tracker := t'\<rparr>
           in (m\<lparr>Upstreams := (Upstreams m)(up_name \<mapsto> up'),
                 BackendStatuses := (BackendStatuses m)(backend \<mapsto> UNHEALTHY)\<rparr>, w')))"

definition LoadUpstreamFromConfig :: "config_Upstream \<Rightarrow> Manager \<Rightarrow> Manager" where
  "LoadUpstreamFromConfig cfg m =
     (let up = (case GetUpstream (cfgName cfg) m of Inl e \<Rightarrow> NewUpstream (cfgName cfg) | Inr val \<Rightarrow> val);
          hs = fold (\<lambda>back. StartHeartbeat \<lparr>hbUpstreamName = cfgName cfg, hbAddr = back\<rparr>)
                 (cfgBackends cfg) (heartbeats up)
      in m\<lparr>Upstreams := (Upstreams m)(cfgName cfg \<mapsto> up\<lparr>heartbeats := hs\<rparr>)\<rparr>)"

text \<open>
  \<^verbatim>\<open>Stop\<close> sends on \<^verbatim>\<open>m.stop\<close>; \<^verbatim>\<open>Start\<close> receives it and runs the rest of its body:
  it closes \<^verbatim>\<open>m.healthEvents\<close> and calls \<^verbatim>\<open>StopAll\<close> on every upstream. \<open>Stop\<close> below is
  that whole effect on the manager and on the contexts.
\<close>

fun Stop :: "mstate \<Rightarrow> mstate" where
  "Stop (m, w) =
     (m\<lparr>healthEventsClosed := True,
        Upstreams := (\<lambda>k. map_option (\<lambda>up. up\<lparr>heartbeats := StopAll (heartbeats up)\<rparr>) (Upstreams m k))\<rparr>,
      w)"

text \<open>\<^verbatim>\<open>up.NextWithContext(ctx)\<close> on the upstream \<open>up_name\<close> of the manager, as \<^verbatim>\<open>Forward\<close> calls it.\<close>

fun upstreamNext :: "string \<Rightarrow> string list \<Rightarrow> gocontext \<Rightarrow> mstate \<Rightarrow>
    (error + string \<times> gocontext \<times> cancelFunc) \<times> mstate" where
  "upstreamNext up_name ks parent (m, w) =
     (case GetUpstream up_name m of
        Inl e \<Rightarrow> (Inl e, (m, w))
      | Inr up \<Rightarrow>
          (let (r, (t', w')) = NextWithContext ks parent (tracker up, w)
           in (r, (m\<lparr>Upstreams := (Upstreams m)(up_name \<mapsto> up\<lparr>tracker := t'\<rparr>)\<rparr>, w'))))"

section \<open>Example states\<close>



text \<open>A new tracker after \<^verbatim>\<open>TrackBackend("a")\<close> and \<^verbatim>\<open>TrackBackend("b")\<close>.\<close>

definition twoBackends :: tstate where
  "twoBackends = TrackBackend ''b'' (TrackBackend ''a'' (NewTracker Background ''test'' ctxs0))"

text \<open>Then one \<^verbatim>\<open>NextWithContext(p)\<close>, which returns \<open>a\<close>.\<close>

definition afterFirst :: "gocontext \<Rightarrow> tstate" where
  "afterFirst p = snd (NextWithContext [''a'', ''b''] p twoBackends)"

text \<open>Then the removal of backend \<open>a\<close>.\<close>

definition trackedState :: tstate where
  "trackedState = UntrackBackend ''a'' ErrBackendUnhealthy (afterFirst Background)"

text \<open>
  Two calls of \<^verbatim>\<open>NextWithContext(context.Background())\<close>, as the tests of the tracker
  make them.
\<close>

definition raceState :: tstate where
  "raceState = snd (NextWithContext [''a'', ''b''] Background (afterFirst Background))"

text \<open>
  Three calls with two request contexts: the first context goes to \<open>a\<close>, the second to
  \<open>b\<close>, the first again to \<open>a\<close>; then the second connection is deregistered.
\<close>

definition scopedState :: tstate where
  "scopedState =
     removeTrackedConn (ValueCtx Background 2) ''b''
       (snd (NextWithContext [''a'', ''b''] (ValueCtx Background 1)
         (snd (NextWithContext [''a'', ''b''] (ValueCtx Background 2)
           (afterFirst (ValueCtx Background 1))))))"

text \<open>
  A tracker built through the exported operations: backend \<open>a\<close> is tracked, then
  \<^verbatim>\<open>NextWithContext\<close> is called \<open>n\<close> times, each time with a new request context.
\<close>

fun sentinelRun :: "nat \<Rightarrow> tstate" where
  "sentinelRun 0 = TrackBackend ''a'' (NewTracker Background ''web'' ctxs0)"
| "sentinelRun (Suc n) = snd (NextWithContext [''a''] (ValueCtx Background n) (sentinelRun n))"

text \<open>An upstream of the configuration, and a listener for it.\<close>

definition webConfig :: config_Upstream where
  "webConfig = \<lparr>cfgName = ''web'', cfgTags = [''sre'', ''dev''], cfgBackends = [''10.0.0.1:80'']\<rparr>"

definition webListener :: DownstreamListener where
  "webListener = \<lparr>dlUpstream = ''web'', policy = newPolicyEnforcerFromConfig [webConfig]\<rparr>"

text \<open>
  Two connections after a good handshake: the certificate of the first has the OU \<open>sre\<close>
  and an empty CN, the certificate of the second the CN \<open>bob\<close> and no OU.
\<close>

definition noCNConn :: tlsConn where
  "noCNConn = \<lparr>handshakeErr = None,
                PeerCertificates = [\<lparr>CommonName = '''', OrganizationalUnit = [''sre'']\<rparr>]\<rparr>"

definition noOUConn :: tlsConn where
  "noOUConn = \<lparr>handshakeErr = None,
                PeerCertificates = [\<lparr>CommonName = ''bob'', OrganizationalUnit = []\<rparr>]\<rparr>"

text \<open>
  The limiter of \<^verbatim>\<open>TestPerClientRateLimiter\<close>: three tokens, no refill; and its calls,
  four for \<open>bob\<close> and one for \<open>wendy\<close>, a tenth of a second apart.
\<close>

definition testLimiter :: perClientRateLimiter where
  "testLimiter = \<lparr>maxTokens = 3, tokenRefillPerSecond = PerSecond 0, clientRL = Map.empty\<rparr>"

definition testCalls :: "(string \<times> real) list" where
  "testCalls = [(''bob'', 0), (''bob'', 1 / 10), (''bob'', 1 / 10), (''bob'', 1 / 10), (''wendy'', 1 / 10)]"

text \<open>
  A manager that has loaded \<open>webConfig\<close>, has seen its backend healthy, and has given a
  connection with the request context \<open>ValueCtx Background 0\<close> to that backend.
\<close>

definition servingManager :: "(error + string \<times> gocontext \<times> cancelFunc) \<times> mstate" where
  "servingManager =
     upstreamNext ''web'' [''10.0.0.1:80''] (ValueCtx Background 0)
       (handleHealthy ''web'' ''10.0.0.1:80'' (LoadUpstreamFromConfig webConfig NewManager, ctxs0))"

text \<open>
  The whole tokens left for a key: those of its bucket, or a full bucket when the key has
  none yet.
\<close>

definition tokensLeft :: "perClientRateLimiter \<Rightarrow> string \<Rightarrow> int" where
  "tokensLeft rl key = (case clientRL rl key of None \<Rightarrow> maxTokens rl | Some l \<Rightarrow> \<lfloor>tokens l\<rfloor>)"

text \<open>
  A limiter without refill all of whose buckets were made by \<^verbatim>\<open>getRL\<close>: they have no
  refill, the capacity \<^verbatim>\<open>maxTokens\<close>, and a whole number of tokens.
\<close>

definition noRefill :: "perClientRateLimiter \<Rightarrow> bool" where
  "noRefill rl =
     (tokenRefillPerSecond rl = PerSecond 0 \<and>
      (\<forall>key l. clientRL rl key = Some l \<longrightarrow>
         limit l = PerSecond 0 \<and> burst l = maxTokens rl \<and>
         (\<exists>r. tokens l = of_int r \<and> r \<le> maxTokens rl)))"

text \<open>The number of calls with the key of call \<open>j\<close> among the calls before it.\<close>

definition earlierCalls :: "(string \<times> real) list \<Rightarrow> nat \<Rightarrow> nat" where
  "earlierCalls cs j = length (filter (\<lambda>c. fst c = fst (cs ! j)) (take j cs))"

section \<open>The least-connections choice\<close>

lemma leastLoop_le: "snd (leastLoop hb ks (c, m)) \<le> m"
proof (induction ks arbitrary: c m)
  case Nil
  show ?case by simp
next
  case (Cons k ks)
  show ?case
  proof (cases "hb k")
    case None
    then show ?thesis using Cons [of c m] by simp
  next
    case (Some a)
    then show ?thesis
      using Cons [of c m] Cons [of k "fcard a"] by (simp split: if_splits)
  qed
qed

lemma leastLoop_lower:
  "b \<in> set ks \<Longrightarrow> hb b = Some ac \<Longrightarrow> snd (leastLoop hb ks (c, m)) \<le> fcard ac"
proof (induction ks arbitrary: c m)
  case Nil
  then show ?case by simp
next
  case (Cons k ks)
  show ?case
  proof (cases "b = k")
    case True
    then show ?thesis
      using Cons.prems leastLoop_le [of hb ks k "fcard ac"] leastLoop_le [of hb ks c m]
      by (simp split: if_splits)
  next
    case False
    then have "b \<in> set ks" using Cons.prems by simp
    then show ?thesis
      using Cons.IH Cons.prems(2) by (simp split: option.splits)
  qed
qed

lemma firstMin_Cons:
  "firstMin hb ks a n \<Longrightarrow> (\<forall>ac'. hb k = Some ac' \<longrightarrow> n < fcard ac') \<Longrightarrow> firstMin hb (k # ks) a n"
  unfolding firstMin_def
  apply (elim exE conjE)
  subgoal for pre post ac
    by (rule exI [of _ "k # pre"]) auto
  done

lemma firstMin_here: "hb k = Some ac \<Longrightarrow> firstMin hb (k # ks) k (fcard ac)"
  unfolding firstMin_def by (rule exI [of _ "[]"]) simp

lemma leastLoop_cases:
  "leastLoop hb ks (c, m) = (c, m) \<or>
   (snd (leastLoop hb ks (c, m)) < m \<and>
    firstMin hb ks (fst (leastLoop hb ks (c, m))) (snd (leastLoop hb ks (c, m))))"
proof (induction ks arbitrary: c m)
  case Nil
  then show ?case by simp
next
  case (Cons k ks)
  show ?case
  proof (cases "hb k")
    case None
    then show ?thesis
      using Cons.IH [of c m] by (auto intro: firstMin_Cons)
  next
    case (Some a)
    show ?thesis
    proof (cases "fcard a < m")
      case True
      then have eq: "leastLoop hb (k # ks) (c, m) = leastLoop hb ks (k, fcard a)"
        using Some by simp
      from Cons.IH [of k "fcard a"] show ?thesis
      proof
        assume "leastLoop hb ks (k, fcard a) = (k, fcard a)"
        then show ?thesis using eq True Some by (simp add: firstMin_here)
      next
        assume a: "snd (leastLoop hb ks (k, fcard a)) < fcard a \<and>
          firstMin hb ks (fst (leastLoop hb ks (k, fcard a))) (snd (leastLoop hb ks (k, fcard a)))"
        then have "firstMin hb (k # ks) (fst (leastLoop hb ks (k, fcard a))) (snd (leastLoop hb ks (k, fcard a)))"
          using Some by (intro firstMin_Cons) auto
        then show ?thesis using eq a True by simp
      qed
    next
      case False
      then have eq: "leastLoop hb (k # ks) (c, m) = leastLoop hb ks (c, m)"
        using Some by simp
      from Cons.IH [of c m] show ?thesis
      proof
        assume "leastLoop hb ks (c, m) = (c, m)"
        then show ?thesis using eq by simp
      next
        assume a: "snd (leastLoop hb ks (c, m)) < m \<and>
          firstMin hb ks (fst (leastLoop hb ks (c, m))) (snd (leastLoop hb ks (c, m)))"
        then have "firstMin hb (k # ks) (fst (leastLoop hb ks (c, m))) (snd (leastLoop hb ks (c, m)))"
          using Some False by (intro firstMin_Cons) auto
        then show ?thesis using eq a by simp
      qed
    qed
  qed
qed

lemma leastLoop_found:
  assumes "b \<in> set ks" "hb b = Some ac" "fcard ac < m"
  shows "firstMin hb ks (fst (leastLoop hb ks (c, m))) (snd (leastLoop hb ks (c, m)))"
proof -
  have "snd (leastLoop hb ks (c, m)) \<le> fcard ac"
    using assms(1,2) by (rule leastLoop_lower)
  then have "leastLoop hb ks (c, m) \<noteq> (c, m)" using assms(3) by auto
  then show ?thesis using leastLoop_cases [of hb ks c m] by simp
qed


lemma firstMin_takeWhile:
  assumes "firstMin hb ks a n" "b \<in> set (takeWhile (\<lambda>b. b \<noteq> a) ks)" "hb b = Some ac'"
  shows "n < fcard ac'"
proof -
  from assms(1) obtain pre post where ks: "ks = pre @ a # post"
    and pre: "\<forall>b\<in>set pre. \<forall>ac'. hb b = Some ac' \<longrightarrow> n < fcard ac'"
    unfolding firstMin_def by blast
  have "takeWhile (\<lambda>b. b \<noteq> a) ks = takeWhile (\<lambda>b. b \<noteq> a) pre"
    unfolding ks by (induction pre) auto
  then have "b \<in> set pre" using assms(2) by (auto dest: set_takeWhileD)
  then show ?thesis using pre assms(3) by blast
qed

text \<open>The choice of \<open>leastConnections\<close> when some active set is below the sentinel.\<close>

lemma leastConnections_firstMin:
  assumes ord: "iterOrder ks (healthyBackends t)"
    and some: "someBelowSentinel t"
  shows "\<exists>n. firstMin (healthyBackends t) ks (leastConnections ks t) n \<and>
     (\<forall>b ac'. healthyBackends t b = Some ac' \<longrightarrow> n \<le> fcard ac')"
proof -
  from some obtain b ac where b: "healthyBackends t b = Some ac" and lt: "fcard ac < MaxInt32"
    unfolding someBelowSentinel_def by blast
  then have bin: "b \<in> set ks" using ord by (auto simp: iterOrder_def)
  let ?r = "leastLoop (healthyBackends t) ks ('''', MaxInt32)"
  have fm: "firstMin (healthyBackends t) ks (fst ?r) (snd ?r)"
    using bin b lt by (rule leastLoop_found)
  have low: "\<forall>b ac'. healthyBackends t b = Some ac' \<longrightarrow> snd ?r \<le> fcard ac'"
  proof (intro allI impI)
    fix b' ac' assume h: "healthyBackends t b' = Some ac'"
    then have "b' \<in> set ks" using ord by (auto simp: iterOrder_def)
    then show "snd ?r \<le> fcard ac'" using h by (rule leastLoop_lower)
  qed
  show ?thesis using fm low unfolding leastConnections_def by blast
qed


declare NextWithContext.simps [simp del]

lemma NextWithContext_empty:
  "dom (healthyBackends t) = {} \<Longrightarrow> NextWithContext ks parent (t, w) = (Inl ErrUpstreamNotReady, (t, w))"
  by (simp add: NextWithContext.simps)

lemma NextWithContext_pick:
  assumes "dom (healthyBackends t) \<noteq> {}"
    and "healthyBackends t (leastConnections ks t) = Some ac"
    and "backendCanceler t (leastConnections ks t) = Some bc"
  shows "\<exists>c cf w'. NextWithContext ks parent (t, w) =
     (Inr (leastConnections ks t, c, cf),
      (t\<lparr>healthyBackends := (healthyBackends t)(leastConnections ks t \<mapsto> finsert parent ac)\<rparr>, w'))"
  using assms by (simp add: NextWithContext.simps Let_def split: prod.splits)

text \<open>\<^verbatim>\<open>NextWithContext\<close> changes no key of either map.\<close>

lemma NextWithContext_keys:
  "dom (healthyBackends (fst (snd (NextWithContext ks parent (t, w))))) = dom (healthyBackends t) \<and>
   backendCanceler (fst (snd (NextWithContext ks parent (t, w)))) = backendCanceler t"
  by (auto simp: NextWithContext.simps Let_def split: option.splits prod.splits)


text \<open>
  Below the sentinel \<^verbatim>\<open>NextWithContext\<close> does what its documentation says: on a tracker
  whose two maps have the same keys and where some active set has fewer than
  \<^verbatim>\<open>math.MaxInt32\<close> members, it returns an address whose active set is a smallest one,
  the first such address in the order the map is iterated in, and adds \<open>parent\<close> to
  the active set of that address.
\<close>

lemma NextWithContext_below_sentinel:
  assumes ord: "iterOrder ks (healthyBackends t)"
    and keys: "dom (healthyBackends t) = dom (backendCanceler t)"
    and some: "someBelowSentinel t"
  shows "\<exists>addr c cf ac.
           fst (NextWithContext ks parent (t, w)) = Inr (addr, c, cf) \<and>
           healthyBackends t addr = Some ac \<and>
           (\<forall>b ac'. healthyBackends t b = Some ac' \<longrightarrow> fcard ac \<le> fcard ac') \<and>
           (\<forall>b\<in>set (takeWhile (\<lambda>b. b \<noteq> addr) ks). \<forall>ac'.
              healthyBackends t b = Some ac' \<longrightarrow> fcard ac < fcard ac') \<and>
           healthyBackends (fst (snd (NextWithContext ks parent (t, w)))) =
             (healthyBackends t)(addr \<mapsto> finsert parent ac) \<and>
           backendCanceler (fst (snd (NextWithContext ks parent (t, w)))) = backendCanceler t"
proof -
  let ?a = "leastConnections ks t"
  from some have ne: "dom (healthyBackends t) \<noteq> {}"
    unfolding someBelowSentinel_def by auto
  from leastConnections_firstMin [OF ord some] obtain n
    where fm: "firstMin (healthyBackends t) ks ?a n"
      and low: "\<forall>b ac'. healthyBackends t b = Some ac' \<longrightarrow> n \<le> fcard ac'"
    by blast
  from fm obtain ac where ac: "healthyBackends t ?a = Some ac" and n: "fcard ac = n"
    unfolding firstMin_def by blast
  from ac keys obtain bc where bc: "backendCanceler t ?a = Some bc" by blast
  from NextWithContext_pick [OF ne ac bc] obtain c cf w' where
    nx: "NextWithContext ks parent (t, w) =
       (Inr (?a, c, cf), (t\<lparr>healthyBackends := (healthyBackends t)(?a \<mapsto> finsert parent ac)\<rparr>, w'))"
    by blast
  have tie: "\<forall>b\<in>set (takeWhile (\<lambda>b. b \<noteq> ?a) ks). \<forall>ac'.
      healthyBackends t b = Some ac' \<longrightarrow> fcard ac < fcard ac'"
    using firstMin_takeWhile [OF fm] n by blast
  show ?thesis
    apply (rule exI [of _ ?a], rule exI [of _ c], rule exI [of _ cf], rule exI [of _ ac])
    using ac low n tie unfolding nx by simp
qed

lemma fcard_requestCtxs: "fcard (requestCtxs n) = n"
proof -
  have "inj_on (ValueCtx Background) {0..<n}" by (simp add: inj_on_def)
  then have "card (ValueCtx Background ` {0..<n}) = n" by (simp add: card_image)
  then show ?thesis by (simp add: requestCtxs_def fcard.rep_eq fset_of_list.rep_eq)
qed

lemma requestCtxs_Suc: "requestCtxs (Suc n) = finsert (ValueCtx Background n) (requestCtxs n)"
  by (simp add: requestCtxs_def)

subsection \<open>A tracker filled up to the sentinel\<close>

lemma sentinelRun_keys:
  "dom (healthyBackends (fst (sentinelRun n))) = {''a''} \<and>
   dom (backendCanceler (fst (sentinelRun n))) = {''a''}"
proof (induction n)
  case 0
  show ?case by (auto simp: NewTracker_def WithCancelCause_def ctxs0_def split: if_splits)
next
  case (Suc n)
  obtain t w where s: "sentinelRun n = (t, w)" by (cases "sentinelRun n")
  from NextWithContext_keys [of "[''a'']" "ValueCtx Background n" t w] Suc s
  show ?case by simp
qed

lemma sentinelRun_reachable: "reachable (sentinelRun n)"
proof (induction n)
  case 0
  show ?case by (simp only: sentinelRun.simps) (intro reachable.intros)
next
  case (Suc n)
  have "iterOrder [''a''] (healthyBackends (fst (sentinelRun n)))"
    using sentinelRun_keys [of n] by (simp add: iterOrder_def)
  with Suc show ?case by (simp only: sentinelRun.simps) (rule r_next)
qed

lemma leastConnections_single:
  "healthyBackends t = [''a'' \<mapsto> ac] \<Longrightarrow>
   leastConnections [''a''] t = (if fcard ac < MaxInt32 then ''a'' else '''')"
  by (simp add: leastConnections_def)

lemma sentinelRun_healthy:
  "n \<le> MaxInt32 \<Longrightarrow> healthyBackends (fst (sentinelRun n)) = [''a'' \<mapsto> requestCtxs n]"
proof (induction n)
  case 0
  show ?case by (simp add: NewTracker_def WithCancelCause_def ctxs0_def requestCtxs_def)
next
  case (Suc n)
  obtain t w where s: "sentinelRun n = (t, w)" by (cases "sentinelRun n")
  have le: "n \<le> MaxInt32" using Suc.prems by simp
  have hb: "healthyBackends t = [''a'' \<mapsto> requestCtxs n]"
    using Suc.IH [OF le] unfolding s by (simp only: fst_conv)
  from Suc.prems have lt: "fcard (requestCtxs n) < MaxInt32" by (simp add: fcard_requestCtxs)
  have a: "leastConnections [''a''] t = ''a''"
    using leastConnections_single [OF hb] lt by simp
  from sentinelRun_keys [of n] s have "''a'' \<in> dom (backendCanceler t)" by simp
  then obtain bc where bc: "backendCanceler t ''a'' = Some bc" by blast
  have ne: "dom (healthyBackends t) \<noteq> {}" using hb by simp
  have ac: "healthyBackends t (leastConnections [''a''] t) = Some (requestCtxs n)"
    using hb a by simp
  have bc': "backendCanceler t (leastConnections [''a''] t) = Some bc" using bc a by simp
  from NextWithContext_pick [OF ne ac bc', of "ValueCtx Background n" w] obtain c cf w' where
    nx: "NextWithContext [''a''] (ValueCtx Background n) (t, w) =
      (Inr (leastConnections [''a''] t, c, cf),
       (t\<lparr>healthyBackends := (healthyBackends t)(leastConnections [''a''] t \<mapsto>
            finsert (ValueCtx Background n) (requestCtxs n))\<rparr>, w'))"
    by blast
  show ?case
    by (simp add: s nx a hb requestCtxs_Suc)
qed

text \<open>
  Claim C1. The claim and the comment of \<^verbatim>\<open>leastConnections\<close> (``chooses the least
  active backend'') say that with a healthy backend \<^verbatim>\<open>NextWithContext\<close> returns one with
  the fewest active connections. The code does not when every healthy backend has
  \<^verbatim>\<open>math.MaxInt32\<close> or more of them. The tracker below is reached through the exported
  operations: backend \<open>a\<close> is tracked and \<^verbatim>\<open>NextWithContext\<close> is called 2147483647 times
  with different contexts, each call returning \<open>a\<close>. On the next call no set size is
  below the initial \<^verbatim>\<open>min\<close>, \<^verbatim>\<open>choice\<close> stays the empty string, and the store into the
  active set of the empty address panics, although \<open>a\<close> is healthy and is the backend
  with the fewest active connections.
\<close>

theorem NextWithContext_sentinel_panic:
  "reachable (sentinelRun 2147483647) \<and>
   healthyBackends (fst (sentinelRun 2147483647)) = [''a'' \<mapsto> requestCtxs 2147483647] \<and>
   dom (backendCanceler (fst (sentinelRun 2147483647))) = {''a''} \<and>
   fcard (requestCtxs 2147483647) = 2147483647 \<and>
   leastConnections [''a''] (fst (sentinelRun 2147483647)) = '''' \<and>
   fst (NextWithContext [''a''] parent (sentinelRun 2147483647)) =
     Inl (Panic ''assignment to entry in nil map'') \<and>
   snd (NextWithContext [''a''] parent (sentinelRun 2147483647)) = sentinelRun 2147483647"
proof -
  define n :: nat where "n = 2147483647"
  have m: "MaxInt32 = n" by (simp add: MaxInt32_def n_def)
  obtain t w where s: "sentinelRun n = (t, w)" by (cases "sentinelRun n")
  have hb: "healthyBackends t = [''a'' \<mapsto> requestCtxs n]"
    using sentinelRun_healthy [of n] s m by simp
  have a: "leastConnections [''a''] t = ''''"
    using leastConnections_single [OF hb] by (simp add: fcard_requestCtxs m)
  have nx: "NextWithContext [''a''] parent (t, w) =
      (Inl (Panic ''assignment to entry in nil map''), (t, w))"
    by (simp add: NextWithContext.simps Let_def a hb)
  have "reachable (sentinelRun n) \<and>
   healthyBackends (fst (sentinelRun n)) = [''a'' \<mapsto> requestCtxs n] \<and>
   dom (backendCanceler (fst (sentinelRun n))) = {''a''} \<and>
   fcard (requestCtxs n) = n \<and>
   leastConnections [''a''] (fst (sentinelRun n)) = '''' \<and>
   fst (NextWithContext [''a''] parent (sentinelRun n)) =
     Inl (Panic ''assignment to entry in nil map'') \<and>
   snd (NextWithContext [''a''] parent (sentinelRun n)) = sentinelRun n"
    using sentinelRun_reachable [of n] sentinelRun_keys [of n]
    by (simp add: s hb a nx fcard_requestCtxs)
  then show ?thesis unfolding n_def .
qed







section \<open>Invariants of the tracker\<close>

subsection \<open>Both maps have the same keys\<close>

lemma keys_NewTracker: "sameKeys (fst (NewTracker parent name w))"
  by (simp add: sameKeys_def NewTracker_def WithCancelCause_def)

lemma keys_TrackBackend: "sameKeys (fst s) \<Longrightarrow> sameKeys (fst (TrackBackend addr s))"
  by (cases s) (simp add: sameKeys_def WithCancelCause_def split: option.splits)

lemma keys_UntrackBackend: "sameKeys (fst s) \<Longrightarrow> sameKeys (fst (UntrackBackend addr err s))"
  by (cases s) (simp add: sameKeys_def split: option.splits)

lemma keys_NextWithContext:
  "sameKeys (fst s) \<Longrightarrow> sameKeys (fst (snd (NextWithContext ks parent s)))"
  by (cases s) (simp add: sameKeys_def NextWithContext_keys)

lemma keys_removeTrackedConn:
  "sameKeys (fst s) \<Longrightarrow> sameKeys (fst (removeTrackedConn c addr s))"
  by (cases s) (auto simp: sameKeys_def split: option.splits)

lemma BackendActiveConns_state: "snd (BackendActiveConns addr s) = s"
  by (cases s) simp

lemma reachable_sameKeys: "reachable s \<Longrightarrow> sameKeys (fst s)"
proof (induction rule: reachable.induct)
  case (r_new parent name w)
  show ?case by (rule keys_NewTracker)
next
  case (r_track s addr)
  from r_track.IH show ?case by (rule keys_TrackBackend)
next
  case (r_untrack s addr err)
  from r_untrack.IH show ?case by (rule keys_UntrackBackend)
next
  case (r_next s ks parent)
  from r_next.IH show ?case by (rule keys_NextWithContext)
next
  case (r_remove s c addr)
  from r_remove.IH show ?case by (rule keys_removeTrackedConn)
next
  case (r_active s addr)
  from r_active.IH show ?case by (simp add: BackendActiveConns_state)
qed

subsection \<open>The example states\<close>

text \<open>What \<^verbatim>\<open>NextWithContext\<close> does to \<^verbatim>\<open>healthyBackends\<close>, whatever the canceler map holds.\<close>

lemma NextWithContext_healthyBackends:
  "healthyBackends (fst (snd (NextWithContext ks parent s))) =
     (case healthyBackends (fst s) (leastConnections ks (fst s)) of
        None \<Rightarrow> healthyBackends (fst s)
      | Some ac \<Rightarrow> (healthyBackends (fst s))(leastConnections ks (fst s) \<mapsto> finsert parent ac))"
  by (cases s) (auto simp: NextWithContext.simps Let_def split: option.splits prod.splits)

lemma NextWithContext_backendCanceler:
  "backendCanceler (fst (snd (NextWithContext ks parent s))) = backendCanceler (fst s)"
  by (cases s) (simp add: NextWithContext_keys)

lemma UntrackBackend_maps:
  assumes "addr \<in> dom (backendCanceler (fst s))"
  shows "healthyBackends (fst (UntrackBackend addr err s)) = (healthyBackends (fst s))(addr := None)"
    and "backendCanceler (fst (UntrackBackend addr err s)) = (backendCanceler (fst s))(addr := None)"
  using assms by (cases s; auto)+

lemma twoBackends_healthy: "healthyBackends (fst twoBackends) = [''a'' \<mapsto> {||}, ''b'' \<mapsto> {||}]"
  by (simp add: twoBackends_def NewTracker_def ctxs0_def WithCancelCause_def)

lemma twoBackends_canceler: "dom (backendCanceler (fst twoBackends)) = {''a'', ''b''}"
  by (auto simp: twoBackends_def NewTracker_def ctxs0_def WithCancelCause_def split: if_splits)

lemma twoBackends_reachable: "reachable twoBackends"
  unfolding twoBackends_def by (intro reachable.intros)

lemma twoBackends_scoped: "reachableScoped twoBackends"
  unfolding twoBackends_def by (intro reachableScoped.intros)

lemma twoBackends_choice: "leastConnections [''a'', ''b''] (fst twoBackends) = ''a''"
  by (simp add: leastConnections_def twoBackends_healthy MaxInt32_def fcard_fempty)

lemma afterFirst_healthy: "healthyBackends (fst (afterFirst p)) = [''a'' \<mapsto> {|p|}, ''b'' \<mapsto> {||}]"
  unfolding afterFirst_def NextWithContext_healthyBackends twoBackends_choice
  by (rule ext) (simp add: twoBackends_healthy)

lemma afterFirst_canceler: "dom (backendCanceler (fst (afterFirst p))) = {''a'', ''b''}"
  by (simp add: afterFirst_def NextWithContext_backendCanceler twoBackends_canceler)

lemma afterFirst_choice: "leastConnections [''a'', ''b''] (fst (afterFirst p)) = ''b''"
  by (simp add: leastConnections_def afterFirst_healthy MaxInt32_def fcard_fempty fcard_finsert_if)

lemma order_ab:
  "healthyBackends t = [''a'' \<mapsto> x, ''b'' \<mapsto> y] \<Longrightarrow> iterOrder [''a'', ''b''] (healthyBackends t)"
  by (auto simp: iterOrder_def split: if_splits)

lemma afterFirst_reachable: "reachable (afterFirst p)"
  unfolding afterFirst_def
  by (rule r_next [OF twoBackends_reachable order_ab [OF twoBackends_healthy]])

lemma trackedState_healthy: "healthyBackends (fst trackedState) = [''b'' \<mapsto> {||}]"
proof -
  have "''a'' \<in> dom (backendCanceler (fst (afterFirst Background)))"
    by (simp add: afterFirst_canceler)
  from UntrackBackend_maps(1) [OF this] show ?thesis
    unfolding trackedState_def by (simp add: afterFirst_healthy)
qed

lemma trackedState_canceler: "dom (backendCanceler (fst trackedState)) = {''b''}"
proof -
  have "''a'' \<in> dom (backendCanceler (fst (afterFirst Background)))"
    by (simp add: afterFirst_canceler)
  from UntrackBackend_maps(2) [OF this] show ?thesis
    unfolding trackedState_def by (simp add: afterFirst_canceler)
qed

lemma trackedState_reachable: "reachable trackedState"
  unfolding trackedState_def by (rule r_untrack [OF afterFirst_reachable])

text \<open>
  Claim C2. In every state the tracker reaches through \<^verbatim>\<open>NewTracker\<close>, \<^verbatim>\<open>TrackBackend\<close>,
  \<^verbatim>\<open>UntrackBackend\<close>, \<^verbatim>\<open>NextWithContext\<close>, \<^verbatim>\<open>removeTrackedConn\<close> and
  \<^verbatim>\<open>BackendActiveConns\<close>, an address is a key of \<^verbatim>\<open>healthyBackends\<close> if and only if it
  is a key of \<^verbatim>\<open>backendCanceler\<close>; \<^verbatim>\<open>NewTracker\<close> establishes this and each of the other
  operations, run on any state where it holds, gives a state where it holds.
\<close>

theorem tracker_maps_same_keys:
  "(reachable s \<longrightarrow>
      (\<forall>a. a \<in> dom (healthyBackends (fst s)) \<longleftrightarrow> a \<in> dom (backendCanceler (fst s)))) \<and>
   sameKeys (fst (NewTracker parent name w)) \<and>
   (sameKeys (fst s) \<longrightarrow>
      sameKeys (fst (TrackBackend addr s)) \<and>
      sameKeys (fst (UntrackBackend addr err s)) \<and>
      sameKeys (fst (snd (NextWithContext ks p s))) \<and>
      sameKeys (fst (removeTrackedConn c addr s)) \<and>
      sameKeys (fst (snd (BackendActiveConns addr s))))"
proof -
  have "reachable s \<longrightarrow>
      (\<forall>a. a \<in> dom (healthyBackends (fst s)) \<longleftrightarrow> a \<in> dom (backendCanceler (fst s)))"
    using reachable_sameKeys [of s] by (simp add: sameKeys_def)
  then show ?thesis
    by (simp add: keys_NewTracker keys_TrackBackend keys_UntrackBackend keys_NextWithContext
        keys_removeTrackedConn BackendActiveConns_state)
qed

theorem tracker_maps_same_keys_witness:
  "reachable trackedState \<and> sameKeys (fst trackedState) \<and>
   healthyBackends (fst trackedState) = [''b'' \<mapsto> {||}] \<and>
   dom (backendCanceler (fst trackedState)) = {''b''} \<and>
   ''b'' \<in> dom (healthyBackends (fst trackedState)) \<and>
   ''b'' \<in> dom (backendCanceler (fst trackedState)) \<and>
   ''a'' \<notin> dom (healthyBackends (fst trackedState)) \<and>
   ''a'' \<notin> dom (backendCanceler (fst trackedState)) \<and>
   sameKeys (fst (TrackBackend ''c'' trackedState)) \<and>
   sameKeys (fst (UntrackBackend ''b'' ErrBackendRemoved trackedState)) \<and>
   sameKeys (fst (snd (NextWithContext [''b''] Background trackedState))) \<and>
   sameKeys (fst (removeTrackedConn Background ''b'' trackedState)) \<and>
   sameKeys (fst (snd (BackendActiveConns ''b'' trackedState)))"
proof -
  have k: "sameKeys (fst trackedState)"
    by (simp add: sameKeys_def trackedState_healthy trackedState_canceler)
  show ?thesis
    using trackedState_reachable k
      tracker_maps_same_keys [of trackedState Background "''test''" ctxs0 "''c''"
        ErrBackendRemoved "[''b'']" Background Background]
      tracker_maps_same_keys [of trackedState Background "''test''" ctxs0 "''b''"
        ErrBackendRemoved "[''b'']" Background Background]
    by (simp add: trackedState_healthy trackedState_canceler)
qed

subsection \<open>A connection handle is tracked by one backend\<close>

lemma reachableScoped_reachable: "reachableScoped s \<Longrightarrow> reachable s"
  by (induction rule: reachableScoped.induct) (auto intro: reachable.intros)

lemma one_rule:
  "atMostOneBackend t \<Longrightarrow> healthyBackends t a = Some aca \<Longrightarrow> healthyBackends t b = Some acb \<Longrightarrow>
   x |\<in>| aca \<Longrightarrow> x |\<in>| acb \<Longrightarrow> a = b"
  unfolding atMostOneBackend_def by blast

lemma one_intro:
  assumes "\<And>a b aca acb x. hb a = Some aca \<Longrightarrow> hb b = Some acb \<Longrightarrow>
     x |\<in>| aca \<Longrightarrow> x |\<in>| acb \<Longrightarrow> a = b"
    and "healthyBackends t = hb"
  shows "atMostOneBackend t"
  unfolding atMostOneBackend_def assms(2) using assms(1) by blast

lemma one_NewTracker: "atMostOneBackend (fst (NewTracker parent name w))"
  by (simp add: NewTracker_def WithCancelCause_def atMostOneBackend_def)

lemma one_TrackBackend:
  "atMostOneBackend (fst s) \<Longrightarrow> atMostOneBackend (fst (TrackBackend addr s))"
  by (cases s) (auto simp: atMostOneBackend_def WithCancelCause_def split: option.splits if_splits)

lemma one_UntrackBackend:
  "atMostOneBackend (fst s) \<Longrightarrow> atMostOneBackend (fst (UntrackBackend addr err s))"
  by (cases s) (auto simp: atMostOneBackend_def split: option.splits if_splits)

lemma one_removeTrackedConn:
  assumes "atMostOneBackend (fst s)"
  shows "atMostOneBackend (fst (removeTrackedConn c addr s))"
proof (cases s)
  case (Pair t w)
  show ?thesis
  proof (cases "healthyBackends t addr")
    case None
    then show ?thesis using assms Pair by simp
  next
    case (Some ac)
    have r: "\<And>a b aca acb x.
        ((healthyBackends t)(addr \<mapsto> ac |-| {|c|})) a = Some aca \<Longrightarrow>
        ((healthyBackends t)(addr \<mapsto> ac |-| {|c|})) b = Some acb \<Longrightarrow>
        x |\<in>| aca \<Longrightarrow> x |\<in>| acb \<Longrightarrow> a = b"
    proof -
      fix a b aca acb x
      assume a: "((healthyBackends t)(addr \<mapsto> ac |-| {|c|})) a = Some aca"
        and b: "((healthyBackends t)(addr \<mapsto> ac |-| {|c|})) b = Some acb"
        and xa: "x |\<in>| aca" and xb: "x |\<in>| acb"
      from a Some xa obtain aca' where a': "healthyBackends t a = Some aca'" "x |\<in>| aca'"
        by (cases "a = addr") auto
      from b Some xb obtain acb' where b': "healthyBackends t b = Some acb'" "x |\<in>| acb'"
        by (cases "b = addr") auto
      from assms Pair have "atMostOneBackend t" by simp
      from one_rule [OF this a'(1) b'(1) a'(2) b'(2)] show "a = b" .
    qed
    have hb: "healthyBackends (fst (removeTrackedConn c addr s)) =
        (healthyBackends t)(addr \<mapsto> ac |-| {|c|})"
      using Pair Some by simp
    from r hb show ?thesis by (rule one_intro)
  qed
qed

text \<open>
  With the same keys in both maps, a call of \<^verbatim>\<open>NextWithContext\<close> either leaves
  \<^verbatim>\<open>healthyBackends\<close> as it was or returns the address whose active set it extended.
\<close>

lemma NextWithContext_effect:
  assumes "sameKeys t"
  shows "healthyBackends (fst (snd (NextWithContext ks parent (t, w)))) = healthyBackends t \<or>
   (\<exists>addr ac c cf. healthyBackends t addr = Some ac \<and>
      fst (NextWithContext ks parent (t, w)) = Inr (addr, c, cf) \<and>
      healthyBackends (fst (snd (NextWithContext ks parent (t, w)))) =
        (healthyBackends t)(addr \<mapsto> finsert parent ac))"
proof (cases "healthyBackends t (leastConnections ks t)")
  case None
  then show ?thesis by (simp add: NextWithContext.simps Let_def)
next
  case (Some ac)
  then have ne: "dom (healthyBackends t) \<noteq> {}" by auto
  from Some assms obtain bc where bc: "backendCanceler t (leastConnections ks t) = Some bc"
    unfolding sameKeys_def by blast
  from NextWithContext_pick [OF ne Some bc, of parent w] obtain c cf w' where
    "NextWithContext ks parent (t, w) =
       (Inr (leastConnections ks t, c, cf),
        (t\<lparr>healthyBackends := (healthyBackends t)(leastConnections ks t \<mapsto> finsert parent ac)\<rparr>, w'))"
    by blast
  then show ?thesis using Some by auto
qed

lemma one_NextWithContext:
  assumes one: "atMostOneBackend (fst s)" and keys: "sameKeys (fst s)"
    and scoped: "scopedCall ks parent s"
  shows "atMostOneBackend (fst (snd (NextWithContext ks parent s)))"
proof (cases s)
  case (Pair t w)
  from keys Pair have "sameKeys t" by simp
  from NextWithContext_effect [OF this, of ks parent w] show ?thesis
  proof
    assume "healthyBackends (fst (snd (NextWithContext ks parent (t, w)))) = healthyBackends t"
    then show ?thesis using one Pair by (simp add: atMostOneBackend_def)
  next
    assume "\<exists>addr ac c cf. healthyBackends t addr = Some ac \<and>
      fst (NextWithContext ks parent (t, w)) = Inr (addr, c, cf) \<and>
      healthyBackends (fst (snd (NextWithContext ks parent (t, w)))) =
        (healthyBackends t)(addr \<mapsto> finsert parent ac)"
    then obtain addr ac c cf where ac: "healthyBackends t addr = Some ac"
      and res: "fst (NextWithContext ks parent (t, w)) = Inr (addr, c, cf)"
      and hb: "healthyBackends (fst (snd (NextWithContext ks parent (t, w)))) =
        (healthyBackends t)(addr \<mapsto> finsert parent ac)"
      by blast
    from scoped Pair res have els: "untrackedElsewhere t addr parent"
      unfolding scopedCall_def by auto
    have r: "\<And>a b aca acb x.
        ((healthyBackends t)(addr \<mapsto> finsert parent ac)) a = Some aca \<Longrightarrow>
        ((healthyBackends t)(addr \<mapsto> finsert parent ac)) b = Some acb \<Longrightarrow>
        x |\<in>| aca \<Longrightarrow> x |\<in>| acb \<Longrightarrow> a = b"
    proof -
      fix a b aca acb x
      assume a: "((healthyBackends t)(addr \<mapsto> finsert parent ac)) a = Some aca"
        and b: "((healthyBackends t)(addr \<mapsto> finsert parent ac)) b = Some acb"
        and xa: "x |\<in>| aca" and xb: "x |\<in>| acb"
      show "a = b"
      proof (cases "a = addr \<and> b = addr")
        case True
        then show ?thesis by simp
      next
        case False
        have nx: "x \<noteq> parent"
        proof
          assume xp: "x = parent"
          from False show False
          proof (cases "a = addr")
            case True
            then have "b \<noteq> addr" using False by simp
            then have "healthyBackends t b = Some acb" using b by simp
            then show False using els xb xp \<open>b \<noteq> addr\<close> unfolding untrackedElsewhere_def by blast
          next
            case False
            then have "healthyBackends t a = Some aca" using a by simp
            then show False using els xa xp False unfolding untrackedElsewhere_def by blast
          qed
        qed
        from a ac xa nx obtain aca' where a': "healthyBackends t a = Some aca'" "x |\<in>| aca'"
          by (cases "a = addr") auto
        from b ac xb nx obtain acb' where b': "healthyBackends t b = Some acb'" "x |\<in>| acb'"
          by (cases "b = addr") auto
        from one Pair have "atMostOneBackend t" by simp
        from one_rule [OF this a'(1) b'(1) a'(2) b'(2)] show ?thesis .
      qed
    qed
    have "healthyBackends (fst (snd (NextWithContext ks parent s))) =
        (healthyBackends t)(addr \<mapsto> finsert parent ac)"
      using Pair hb by simp
    with r show ?thesis by (rule one_intro)
  qed
qed

lemma raceState_healthy:
  "healthyBackends (fst raceState) = [''a'' \<mapsto> {|Background|}, ''b'' \<mapsto> {|Background|}]"
  unfolding raceState_def NextWithContext_healthyBackends afterFirst_choice
  by (rule ext) (simp add: afterFirst_healthy)

lemma raceState_reachable: "reachable raceState"
  unfolding raceState_def
  by (rule r_next [OF afterFirst_reachable order_ab [OF afterFirst_healthy]])

text \<open>
  Claim C3 as it is written fails. After \<^verbatim>\<open>TrackBackend("a")\<close>, \<^verbatim>\<open>TrackBackend("b")\<close> and
  two calls \<^verbatim>\<open>NextWithContext(context.Background())\<close>, the first call has put the
  context in the active set of \<open>a\<close> and the second, which chooses the idle \<open>b\<close>, in the
  active set of \<open>b\<close>: one handle is in two active sets.
\<close>

theorem shared_handle_counterexample:
  "reachable raceState \<and>
   healthyBackends (fst raceState) = [''a'' \<mapsto> {|Background|}, ''b'' \<mapsto> {|Background|}] \<and>
   \<not> atMostOneBackend (fst raceState)"
proof -
  have "\<not> atMostOneBackend (fst raceState)"
  proof
    assume "atMostOneBackend (fst raceState)"
    from one_rule [OF this, of "''a''" "{|Background|}" "''b''" "{|Background|}" Background]
    show False by (simp add: raceState_healthy)
  qed
  then show ?thesis using raceState_reachable raceState_healthy by simp
qed

text \<open>
  Claim C3, as amended. In every state reached by \<^verbatim>\<open>TrackBackend\<close>, \<^verbatim>\<open>UntrackBackend\<close>,
  \<^verbatim>\<open>NextWithContext\<close> and \<^verbatim>\<open>removeTrackedConn\<close> calls with any arguments, where each
  \<^verbatim>\<open>NextWithContext\<close> call that returns an address is made on a parent context which at
  that time is in the active set of no other backend, each connection handle is in the
  active set of at most one backend.
\<close>

theorem scoped_handle_in_one_backend:
  "reachableScoped s \<Longrightarrow> atMostOneBackend (fst s)"
proof (induction rule: reachableScoped.induct)
  case (s_new parent name w)
  show ?case by (rule one_NewTracker)
next
  case (s_track s addr)
  from s_track.IH show ?case by (rule one_TrackBackend)
next
  case (s_untrack s addr err)
  from s_untrack.IH show ?case by (rule one_UntrackBackend)
next
  case (s_next s ks parent)
  have "sameKeys (fst s)"
    using s_next.hyps(1) by (intro reachable_sameKeys reachableScoped_reachable)
  with s_next.IH show ?case using s_next.hyps(3) by (rule one_NextWithContext)
next
  case (s_remove s c addr)
  from s_remove.IH show ?case by (rule one_removeTrackedConn)
qed

lemma scopedCall_choice:
  "untrackedElsewhere (fst s) (leastConnections ks (fst s)) parent \<Longrightarrow> scopedCall ks parent s"
  unfolding scopedCall_def
  by (cases s) (auto simp: NextWithContext.simps Let_def split: option.splits prod.splits if_splits)

text \<open>
  The condition on the calls cannot be made weaker: a call that returns an address and is
  not such a call leaves its context in the active sets of two backends.
\<close>

lemma NextWithContext_Inr:
  assumes "fst (NextWithContext ks parent (t, w)) = Inr (addr, c, cf)"
  shows "\<exists>ac. healthyBackends t addr = Some ac \<and>
     healthyBackends (fst (snd (NextWithContext ks parent (t, w)))) =
       (healthyBackends t)(addr \<mapsto> finsert parent ac)"
  using assms
  by (auto simp: NextWithContext.simps Let_def split: option.splits prod.splits if_splits)

lemma unscoped_call_shares_handle:
  assumes "\<not> scopedCall ks parent s"
  shows "\<not> atMostOneBackend (fst (snd (NextWithContext ks parent s)))"
proof
  assume one: "atMostOneBackend (fst (snd (NextWithContext ks parent s)))"
  obtain t w where s: "s = (t, w)" by (cases s)
  from assms obtain addr c cf where res: "fst (NextWithContext ks parent (t, w)) = Inr (addr, c, cf)"
    and els: "\<not> untrackedElsewhere t addr parent"
    unfolding scopedCall_def s by auto
  from els obtain a ac where a: "healthyBackends t a = Some ac" "a \<noteq> addr" "parent |\<in>| ac"
    unfolding untrackedElsewhere_def by blast
  from NextWithContext_Inr [OF res] obtain ac0 where
    hb: "healthyBackends (fst (snd (NextWithContext ks parent (t, w)))) =
       (healthyBackends t)(addr \<mapsto> finsert parent ac0)"
    by blast
  have 1: "healthyBackends (fst (snd (NextWithContext ks parent s))) a = Some ac"
    using a hb s by simp
  have 2: "healthyBackends (fst (snd (NextWithContext ks parent s))) addr = Some (finsert parent ac0)"
    using hb s by simp
  from one_rule [OF one 1 2 a(3)] a(2) show False by simp
qed

lemma afterFirst_scoped: "reachableScoped (afterFirst p)"
  unfolding afterFirst_def
proof (rule s_next [OF twoBackends_scoped order_ab [OF twoBackends_healthy]])
  show "scopedCall [''a'', ''b''] p twoBackends"
    by (rule scopedCall_choice)
       (simp add: untrackedElsewhere_def twoBackends_healthy)
qed

lemma second_healthy:
  "healthyBackends (fst (snd (NextWithContext [''a'', ''b''] q (afterFirst p)))) =
     [''a'' \<mapsto> {|p|}, ''b'' \<mapsto> {|q|}]"
  unfolding NextWithContext_healthyBackends afterFirst_choice
  by (rule ext) (simp add: afterFirst_healthy)

lemma second_scoped:
  "p \<noteq> q \<Longrightarrow> reachableScoped (snd (NextWithContext [''a'', ''b''] q (afterFirst p)))"
proof (rule s_next [OF afterFirst_scoped order_ab [OF afterFirst_healthy]])
  assume "p \<noteq> q"
  then show "scopedCall [''a'', ''b''] q (afterFirst p)"
    by (intro scopedCall_choice)
       (auto simp: untrackedElsewhere_def afterFirst_healthy afterFirst_choice split: if_splits)
qed

lemma second_choice:
  "leastConnections [''a'', ''b''] (fst (snd (NextWithContext [''a'', ''b''] q (afterFirst p)))) = ''a''"
  by (simp add: leastConnections_def second_healthy MaxInt32_def fcard_fempty fcard_finsert_if)

lemma third_healthy:
  "healthyBackends (fst (snd (NextWithContext [''a'', ''b''] p
     (snd (NextWithContext [''a'', ''b''] q (afterFirst p)))))) =
     [''a'' \<mapsto> {|p|}, ''b'' \<mapsto> {|q|}]"
  unfolding NextWithContext_healthyBackends [of _ _ "snd (NextWithContext [''a'', ''b''] q (afterFirst p))"]
    second_choice
  by (rule ext) (simp add: second_healthy)

lemma third_scoped:
  assumes "p \<noteq> q"
  shows "reachableScoped (snd (NextWithContext [''a'', ''b''] p
     (snd (NextWithContext [''a'', ''b''] q (afterFirst p)))))"
proof (rule s_next [OF second_scoped [OF assms] order_ab [OF second_healthy]])
  show "scopedCall [''a'', ''b''] p (snd (NextWithContext [''a'', ''b''] q (afterFirst p)))"
    using assms
    by (intro scopedCall_choice)
       (auto simp: untrackedElsewhere_def second_healthy second_choice split: if_splits)
qed

lemma scopedState_healthy:
  "healthyBackends (fst scopedState) = [''a'' \<mapsto> {|ValueCtx Background 1|}, ''b'' \<mapsto> {||}]"
proof -
  obtain t w where s: "snd (NextWithContext [''a'', ''b''] (ValueCtx Background 1)
     (snd (NextWithContext [''a'', ''b''] (ValueCtx Background 2) (afterFirst (ValueCtx Background 1))))) = (t, w)"
    by (cases "snd (NextWithContext [''a'', ''b''] (ValueCtx Background 1)
     (snd (NextWithContext [''a'', ''b''] (ValueCtx Background 2) (afterFirst (ValueCtx Background 1)))))")
  have hb: "healthyBackends t = [''a'' \<mapsto> {|ValueCtx Background 1|}, ''b'' \<mapsto> {|ValueCtx Background 2|}]"
    using third_healthy [of "ValueCtx Background 1" "ValueCtx Background 2"] unfolding s
    by (simp only: fst_conv)
  show ?thesis
    unfolding scopedState_def s by (rule ext) (simp add: hb)
qed

lemma scopedState_reachable: "reachableScoped scopedState"
  unfolding scopedState_def
  by (rule s_remove [OF third_scoped]) simp

theorem scoped_handle_in_one_backend_witness:
  "reachableScoped scopedState \<and> atMostOneBackend (fst scopedState) \<and>
   healthyBackends (fst scopedState) = [''a'' \<mapsto> {|ValueCtx Background 1|}, ''b'' \<mapsto> {||}]"
  using scopedState_reachable scoped_handle_in_one_backend [OF scopedState_reachable]
  by (simp add: scopedState_healthy)

section \<open>The splice step of the forwarder\<close>

text \<open>
  Claim C5. The claim says that \<^verbatim>\<open>fwd\<close> returns the join of the errors of the two copy
  tasks. The code calls \<^verbatim>\<open>errors.Join(err, <-errc)\<close> and drops its value, so the error
  of the task that finishes second is lost: when the first task ends without an error
  and the second with one, \<^verbatim>\<open>fwd\<close> returns nil where the join is not nil; when both
  fail, it returns the first error alone, wrapped, and the second is not in its chain.
\<close>

theorem fwd_drops_second_error:
  "fwd None None (Some (Other ''write: broken pipe'')) = None \<and>
   errors_Join [None, Some (Other ''write: broken pipe'')] = Some (Join [Other ''write: broken pipe'']) \<and>
   fwd None (Some (Other ''read: connection reset'')) (Some (Other ''write: broken pipe'')) =
     Some (Wrap ''failed to forward connection'' (Other ''read: connection reset'')) \<and>
   \<not> errors_Is (fwd None (Some (Other ''read: connection reset'')) (Some (Other ''write: broken pipe'')))
       (Other ''write: broken pipe'') \<and>
   errors_Is (errors_Join [Some (Other ''read: connection reset''), Some (Other ''write: broken pipe'')])
       (Other ''write: broken pipe'')"
  by (simp add: fwd_def errors_Join_def errors_Is_def List.map_filter_simps)

section \<open>The health check\<close>

text \<open>
  Claim C6. The claim, and the comment in \<^verbatim>\<open>TCP.Check\<close> (``Don't return error due to
  timeout since it is expected''), say that the error of a dial that was cut short by
  its context is suppressed. The code tests \<^verbatim>\<open>errors.Is(err, context.Canceled)\<close> only.
  A dial that runs into the deadline of its context fails with an error that matches
  \<^verbatim>\<open>context.DeadlineExceeded\<close> and not \<^verbatim>\<open>context.Canceled\<close>, and \<^verbatim>\<open>Check\<close> returns it
  with the status \<open>FAILED\<close>; the error of a cancelled dial is suppressed.
\<close>

theorem Check_returns_timeout_error:
  "fst (Check (Some (dialAborted DeadlineExceeded)) h) =
     (FAILED, status h \<noteq> FAILED, Some (dialAborted DeadlineExceeded)) \<and>
   errors_Is (Some (dialAborted DeadlineExceeded)) DeadlineExceeded \<and>
   \<not> errors_Is (Some (dialAborted DeadlineExceeded)) Canceled \<and>
   fst (Check (Some (dialAborted Canceled)) h) = (FAILED, status h \<noteq> FAILED, None)"
  by (simp add: Check_def dialAborted_def errors_Is_def Let_def)

section \<open>Policy and client identity\<close>

lemma findTag_set: "findTag tags x \<longleftrightarrow> x \<in> set tags"
  by (induction tags) auto

text \<open>
  Claim C8. \<^verbatim>\<open>query\<close> returns true with a nil error if and only if the upstream of the
  query is in the configuration and the OU of the query equals one of its tags. For an
  upstream that is not in the configuration it returns false with an error, and in
  every other case false with a nil error.
\<close>

theorem query_allows_iff_tag:
  "(query q p = (True, None) \<longleftrightarrow>
      (\<exists>tags. upstreamTags p (upstream q) = Some tags \<and> ou q \<in> set tags)) \<and>
   (upstreamTags p (upstream q) = None \<longrightarrow>
      fst (query q p) = False \<and> snd (query q p) \<noteq> None) \<and>
   (\<forall>tags. upstreamTags p (upstream q) = Some tags \<and> ou q \<notin> set tags \<longrightarrow>
      query q p = (False, None))"
  by (auto simp: query_def findTag_set split: option.splits)

theorem query_allows_iff_tag_witness:
  "upstreamTags (policy webListener) ''web'' = Some [''sre'', ''dev''] \<and>
   upstreamTags (policy webListener) ''db'' = None \<and>
   query \<lparr>user = ''bob'', ou = ''dev'', upstream = ''web''\<rparr> (policy webListener) = (True, None) \<and>
   query \<lparr>user = ''bob'', ou = ''ops'', upstream = ''web''\<rparr> (policy webListener) = (False, None) \<and>
   fst (query \<lparr>user = ''bob'', ou = ''dev'', upstream = ''db''\<rparr> (policy webListener)) = False \<and>
   snd (query \<lparr>user = ''bob'', ou = ''dev'', upstream = ''db''\<rparr> (policy webListener)) \<noteq> None"
proof -
  have tags: "upstreamTags (policy webListener) ''web'' = Some [''sre'', ''dev'']"
    "upstreamTags (policy webListener) ''db'' = None"
    by (simp_all add: webListener_def webConfig_def)
  show ?thesis
    using tags
      query_allows_iff_tag [of "\<lparr>user = ''bob'', ou = ''dev'', upstream = ''web''\<rparr>" "policy webListener"]
      query_allows_iff_tag [of "\<lparr>user = ''bob'', ou = ''ops'', upstream = ''web''\<rparr>" "policy webListener"]
      query_allows_iff_tag [of "\<lparr>user = ''bob'', ou = ''dev'', upstream = ''db''\<rparr>" "policy webListener"]
    by simp
qed

text \<open>
  Claim C9 as it is written fails. The certificate of \<open>noCNConn\<close> has an OU and an empty
  CN: \<^verbatim>\<open>extractCertSubjFromConn\<close> returns the empty user and the OU with no error, and
  \<^verbatim>\<open>handleConn\<close> calls \<^verbatim>\<open>Forward\<close> for the connection, with the empty string as the
  key of the rate limiter.
\<close>

theorem empty_CN_counterexample:
  "CommonName (hd (PeerCertificates noCNConn)) = '''' \<and>
   extractCertSubjFromConn noCNConn = Inr ('''', ''sre'') \<and>
   handleConn webListener (TLSConn noCNConn) =
     Forwarded \<lparr>fwdUpstream = ''web'', fwdConn = TLSConn noCNConn, RateLimiterKey = ''''\<rparr>"
  by (simp add: noCNConn_def extractCertSubjFromConn_def handleConn_def verifyTLS_def
      webListener_def webConfig_def query_def)

text \<open>
  Claim C9, as amended. For a connection with a peer certificate,
  \<^verbatim>\<open>extractCertSubjFromConn\<close> returns an error exactly when the \<^verbatim>\<open>OrganizationalUnit\<close>
  list of the certificate is empty, and then \<^verbatim>\<open>handleConn\<close> drops the connection
  before \<^verbatim>\<open>Forward\<close> is called. With an OU it returns the \<^verbatim>\<open>CommonName\<close>, empty or not,
  and the first OU.
\<close>

theorem extractCertSubjFromConn_fails_iff_no_OU:
  assumes "PeerCertificates conn = cert # certs"
  shows "((\<exists>e. extractCertSubjFromConn conn = Inl e) \<longleftrightarrow> OrganizationalUnit cert = []) \<and>
         (OrganizationalUnit cert = [] \<longrightarrow> (\<exists>e. handleConn d (TLSConn conn) = Dropped e)) \<and>
         (OrganizationalUnit cert \<noteq> [] \<longrightarrow>
            extractCertSubjFromConn conn = Inr (CommonName cert, hd (OrganizationalUnit cert)))"
  using assms
  by (auto simp: extractCertSubjFromConn_def handleConn_def verifyTLS_def hd_conv_nth
      split: option.splits)

theorem extractCertSubjFromConn_fails_iff_no_OU_witness:
  "PeerCertificates noOUConn = [\<lparr>CommonName = ''bob'', OrganizationalUnit = []\<rparr>] \<and>
   extractCertSubjFromConn noOUConn = Inl ErrNoOU \<and>
   handleConn webListener (TLSConn noOUConn) = Dropped ErrNoOU"
proof -
  have c: "PeerCertificates noOUConn = [\<lparr>CommonName = ''bob'', OrganizationalUnit = []\<rparr>]"
    by (simp add: noOUConn_def)
  have ev: "extractCertSubjFromConn noOUConn = Inl ErrNoOU"
    "handleConn webListener (TLSConn noOUConn) = Dropped ErrNoOU"
    by (simp_all add: noOUConn_def extractCertSubjFromConn_def handleConn_def verifyTLS_def)
  show ?thesis
    using c extractCertSubjFromConn_fails_iff_no_OU [OF c, of webListener] ev
    by simp
qed

section \<open>Stopping the manager\<close>

lemma servingManager_eval:
  "servingManager =
    (Inr (''10.0.0.1:80'', CancelCtx (ValueCtx Background 0) 1,
          Release 2 (CancelCtx (ValueCtx Background 0) 1)),
     (\<lparr>Upstreams = [''web'' \<mapsto>
          \<lparr>Name = ''web'', Status_ready = 1,
           tracker = \<lparr>UpstreamName = ''web'', Cancel = None, Ctx = Background,
                      healthyBackends = [''10.0.0.1:80'' \<mapsto> {|ValueCtx Background 0|}],
                      backendCanceler = [''10.0.0.1:80'' \<mapsto>
                        \<lparr>ctx = CancelCtx Background 0, cancel = CancelCtx Background 0\<rparr>]\<rparr>,
           heartbeats = \<lparr>stoppers = [\<lparr>hbUpstreamName = ''web'', hbAddr = ''10.0.0.1:80''\<rparr>]\<rparr>\<rparr>],
        BackendStatuses = [''10.0.0.1:80'' \<mapsto> HEALTHY],
        healthEventsClosed = False\<rparr>,
      \<lparr>causes = Map.empty, fresh = 4,
       afterFuncs = [(2, CancelCtx Background 0,
                       PropagateCancel (CancelCtx (ValueCtx Background 0) 1) (CancelCtx Background 0)),
                     (3, CancelCtx (ValueCtx Background 0) 1,
                       RemoveTrackedConn ''web'' (ValueCtx Background 0) ''10.0.0.1:80'')]\<rparr>))"
  by (simp add: servingManager_def webConfig_def NewManager_def LoadUpstreamFromConfig_def
      GetUpstream_def NewUpstream_def StartHeartbeat_def ctxs0_def WithCancelCause_def AfterFunc_def
      NextWithContext.simps leastConnections_def MaxInt32_def Let_def fcard_fempty
      numeral_2_eq_2 numeral_3_eq_3)

text \<open>
  Claim C4. The claim says that \<^verbatim>\<open>Stop\<close> cancels the parent context of the tracker of
  every upstream, and with it every connection in flight, and that the tracker
  \<^verbatim>\<open>NewUpstream\<close> creates has a cancellable parent context. In the code
  \<^verbatim>\<open>NewUpstream\<close> sets \<^verbatim>\<open>Ctx\<close> to \<^verbatim>\<open>context.Background()\<close> and leaves \<^verbatim>\<open>Cancel\<close> nil
  (\<^verbatim>\<open>NewTracker\<close>, which derives a cancellable context, is not called), and the teardown
  of \<^verbatim>\<open>Start\<close> closes the event channel and stops the heartbeats only. After \<^verbatim>\<open>Stop\<close>
  on a manager with one connection in flight, nothing is cancelled: not the context of
  the tracker, not that of the backend, not that of the connection, and the connection
  is still in the active set of its backend.
\<close>

theorem Stop_cancels_no_context:
  "Cancel (tracker (NewUpstream name)) = None \<and>
   Ctx (tracker (NewUpstream name)) = Background \<and>
   Cancel (fst (NewTracker Background name ctxs0)) = Some (CancelCtx Background 0) \<and>
   fst servingManager =
     Inr (''10.0.0.1:80'', CancelCtx (ValueCtx Background 0) 1,
          Release 2 (CancelCtx (ValueCtx Background 0) 1)) \<and>
   map_option (\<lambda>up. (Cancel (tracker up), Ctx (tracker up), stoppers (heartbeats up)))
       (Upstreams (fst (Stop (snd servingManager))) ''web'') =
     Some (None, Background, []) \<and>
   map_option (\<lambda>up. healthyBackends (tracker up) ''10.0.0.1:80'')
       (Upstreams (fst (Stop (snd servingManager))) ''web'') =
     Some (Some {|ValueCtx Background 0|}) \<and>
   map_option (\<lambda>up. map_option ctx (backendCanceler (tracker up) ''10.0.0.1:80''))
       (Upstreams (fst (Stop (snd servingManager))) ''web'') =
     Some (Some (CancelCtx Background 0)) \<and>
   healthEventsClosed (fst (Stop (snd servingManager))) \<and>
   snd (Stop (snd servingManager)) = snd (snd servingManager) \<and>
   \<not> ctxDone (snd (Stop (snd servingManager))) Background \<and>
   \<not> ctxDone (snd (Stop (snd servingManager))) (CancelCtx Background 0) \<and>
   \<not> ctxDone (snd (Stop (snd servingManager))) (CancelCtx (ValueCtx Background 0) 1)"
  by (simp add: servingManager_eval NewUpstream_def NewTracker_def WithCancelCause_def ctxs0_def
      StopAll_def)

section \<open>The rate limiter without refill\<close>

lemma noRefill_new:
  "tokenRefillPerSecond rl = PerSecond 0 \<Longrightarrow> clientRL rl = Map.empty \<Longrightarrow> noRefill rl"
  by (simp add: noRefill_def)

lemma tokensLeft_new: "clientRL rl = Map.empty \<Longrightarrow> tokensLeft rl key = maxTokens rl"
  by (simp add: tokensLeft_def)

text \<open>One call of \<^verbatim>\<open>rateLimit\<close>: it is allowed when a token is left, and takes it.\<close>

lemma rateLimit_new_key:
  assumes "noRefill rl" "clientRL rl key = None"
  shows "rateLimit key dt rl =
     (if 1 \<le> maxTokens rl then None else Some (ErrRateLimited key (maxTokens rl)),
      rl\<lparr>clientRL := (clientRL rl)(key \<mapsto>
        \<lparr>limit = PerSecond 0, burst = maxTokens rl,
         tokens = of_int (if 1 \<le> maxTokens rl then maxTokens rl - 1 else maxTokens rl)\<rparr>)\<rparr>)"
  using assms
  by (simp add: rateLimit_def getRL_def NewLimiter_def Allow_def noRefill_def Let_def)

lemma rateLimit_old_key:
  assumes "noRefill rl" "clientRL rl key = Some l" "tokens l = of_int r"
  shows "rateLimit key dt rl =
     (if 1 \<le> r then None else Some (ErrRateLimited key (maxTokens rl)),
      rl\<lparr>clientRL := (clientRL rl)(key \<mapsto>
        \<lparr>limit = PerSecond 0, burst = maxTokens rl,
         tokens = of_int (if 1 \<le> r then r - 1 else r)\<rparr>)\<rparr>)"
proof -
  from assms have l: "limit l = PerSecond 0" "burst l = maxTokens rl" and le: "r \<le> maxTokens rl"
    unfolding noRefill_def by (auto dest!: spec [of _ key] spec [of _ l])
  have m: "min (real_of_int (maxTokens rl)) (real_of_int r) = real_of_int r"
    using le by simp
  have one: "(1 \<le> real_of_int r) = (1 \<le> r)" by linarith
  show ?thesis
    using assms(2,3) l
    by (cases l) (simp add: rateLimit_def getRL_def Allow_def Let_def m one)
qed

lemma noRefill_update:
  assumes "noRefill rl" "r \<le> maxTokens rl"
  shows "noRefill (rl\<lparr>clientRL := (clientRL rl)(key \<mapsto>
     \<lparr>limit = PerSecond 0, burst = maxTokens rl, tokens = of_int r\<rparr>)\<rparr>)"
  using assms unfolding noRefill_def by auto

lemma rateLimit_step:
  assumes "noRefill rl"
  shows "noRefill (snd (rateLimit key dt rl)) \<and>
         maxTokens (snd (rateLimit key dt rl)) = maxTokens rl \<and>
         (fst (rateLimit key dt rl) = None \<longleftrightarrow> 1 \<le> tokensLeft rl key) \<and>
         (fst (rateLimit key dt rl) \<noteq> None \<longrightarrow>
            fst (rateLimit key dt rl) = Some (ErrRateLimited key (maxTokens rl))) \<and>
         tokensLeft (snd (rateLimit key dt rl)) key =
           (if 1 \<le> tokensLeft rl key then tokensLeft rl key - 1 else tokensLeft rl key) \<and>
         (\<forall>other. other \<noteq> key \<longrightarrow>
            tokensLeft (snd (rateLimit key dt rl)) other = tokensLeft rl other)"
proof (cases "clientRL rl key")
  case None
  have inv: "noRefill (snd (rateLimit key dt rl))"
    unfolding rateLimit_new_key [OF assms None] snd_conv
    by (rule noRefill_update [OF assms]) simp
  show ?thesis
    using inv unfolding rateLimit_new_key [OF assms None]
    by (auto simp: tokensLeft_def None split: option.splits)
next
  case (Some l)
  from assms Some obtain r where r: "tokens l = of_int r" and le: "r \<le> maxTokens rl"
    unfolding noRefill_def by blast
  have inv: "noRefill (snd (rateLimit key dt rl))"
    unfolding rateLimit_old_key [OF assms Some r] snd_conv
    by (rule noRefill_update [OF assms]) (use le in simp)
  show ?thesis
    using inv unfolding rateLimit_old_key [OF assms Some r]
    by (auto simp: tokensLeft_def Some r split: option.splits)
qed

lemma earlierCalls_0: "earlierCalls cs 0 = 0"
  by (simp add: earlierCalls_def)

lemma earlierCalls_Suc:
  "earlierCalls (c # cs) (Suc j) = (if fst c = fst (cs ! j) then 1 else 0) + earlierCalls cs j"
  by (simp add: earlierCalls_def)

lemma rateLimits_length: "length (rateLimits cs rl) = length cs"
  by (induction cs arbitrary: rl) auto

lemma rateLimits_nth:
  assumes "noRefill rl" "j < length cs"
  shows "(rateLimits cs rl ! j = None \<longleftrightarrow>
            int (earlierCalls cs j) < tokensLeft rl (fst (cs ! j))) \<and>
         (rateLimits cs rl ! j \<noteq> None \<longrightarrow>
            rateLimits cs rl ! j = Some (ErrRateLimited (fst (cs ! j)) (maxTokens rl)))"
  using assms
proof (induction cs arbitrary: rl j)
  case Nil
  then show ?case by simp
next
  case (Cons c cs)
  obtain key dt where c: "c = (key, dt)" by (cases c)
  note st = rateLimit_step [OF Cons.prems(1), of key dt]
  show ?case
  proof (cases j)
    case 0
    then show ?thesis using st by (auto simp: c earlierCalls_0)
  next
    case (Suc i)
    then have i: "i < length cs" using Cons.prems(2) by simp
    have inv: "noRefill (snd (rateLimit key dt rl))" using st by simp
    note ih = Cons.IH [OF inv i]
    let ?k = "fst (cs ! i)"
    have left: "int (earlierCalls (c # cs) (Suc i)) < tokensLeft rl ?k \<longleftrightarrow>
        int (earlierCalls cs i) < tokensLeft (snd (rateLimit key dt rl)) ?k"
    proof (cases "?k = key")
      case True
      then show ?thesis using st by (simp add: earlierCalls_Suc c) linarith
    next
      case False
      then have "tokensLeft (snd (rateLimit key dt rl)) ?k = tokensLeft rl ?k" using st by simp
      then show ?thesis using False by (simp add: earlierCalls_Suc c) 
    qed
    have mx: "maxTokens (snd (rateLimit key dt rl)) = maxTokens rl" using st by simp
    show ?thesis
      using ih left by (auto simp: Suc c mx)
  qed
qed

text \<open>
  Claim C7. On a limiter with \<^verbatim>\<open>maxTokens\<close> \<open>N\<close>, no refill and no bucket yet, and for
  any sequence of \<^verbatim>\<open>rateLimit\<close> calls with any keys at any times, a call returns nil if
  and only if fewer than \<open>N\<close> of the calls before it had its key, and otherwise it returns
  the rate-limit error for its key. So for every key the first \<open>N\<close> calls are allowed and
  call \<open>N + 1\<close> is denied, and the calls with other keys, which are not counted, do not
  change that.
\<close>

theorem rateLimit_first_N_calls:
  assumes "tokenRefillPerSecond rl = PerSecond 0" and "clientRL rl = Map.empty"
    and "j < length cs"
  shows "(rateLimits cs rl ! j = None \<longleftrightarrow> int (earlierCalls cs j) < maxTokens rl) \<and>
         (\<not> int (earlierCalls cs j) < maxTokens rl \<longrightarrow>
            rateLimits cs rl ! j = Some (ErrRateLimited (fst (cs ! j)) (maxTokens rl)))"
  using rateLimits_nth [OF noRefill_new [OF assms(1,2)] assms(3)]
  by (auto simp: tokensLeft_new [OF assms(2)])

theorem rateLimit_first_N_calls_witness:
  "tokenRefillPerSecond testLimiter = PerSecond 0 \<and> clientRL testLimiter = Map.empty \<and>
   maxTokens testLimiter = 3 \<and> length testCalls = 5 \<and>
   earlierCalls testCalls 2 = 2 \<and> earlierCalls testCalls 3 = 3 \<and> earlierCalls testCalls 4 = 0 \<and>
   rateLimits testCalls testLimiter ! 2 = None \<and>
   rateLimits testCalls testLimiter ! 3 = Some (ErrRateLimited ''bob'' 3) \<and>
   rateLimits testCalls testLimiter ! 4 = None"
proof -
  have h: "tokenRefillPerSecond testLimiter = PerSecond 0" "clientRL testLimiter = Map.empty"
    by (simp_all add: testLimiter_def)
  have n: "(2::nat) < length testCalls" "(3::nat) < length testCalls" "(4::nat) < length testCalls"
    by (simp_all add: testCalls_def)
  have e: "earlierCalls testCalls 2 = 2" "earlierCalls testCalls 3 = 3" "earlierCalls testCalls 4 = 0"
    "maxTokens testLimiter = 3" "length testCalls = 5"
    "fst (testCalls ! 3) = ''bob''"
    by (simp_all add: earlierCalls_def testCalls_def testLimiter_def numeral_2_eq_2 numeral_3_eq_3)
  show ?thesis
    using h rateLimit_first_N_calls [OF h n(1)] rateLimit_first_N_calls [OF h n(2)]
      rateLimit_first_N_calls [OF h n(3)]
    by (simp add: e)
qed

end
